theory Spec2Isabelle
  imports Complex_Main
begin

section \<open>Data model of the territory-capture simulation\<close>

text \<open>
  The simulation lives in \<open>components/GameCanvas.tsx\<close>; the surrounding shell is \<open>App.tsx\<close>.
  JavaScript numbers that hold grid indices and counters are modelled as \<open>int\<close>. Positions,
  speeds, times and fractions are doubles: they are modelled as the \<open>real\<close> values of doubles,
  every arithmetic operator of the source being the exact operation followed by rounding to
  the nearest double, and every decimal literal the double nearest to it. \<open>Math.floor\<close> is
  \<open>floor\<close> and \<open>Math.round x\<close> is \<open>floor (x + 1/2)\<close>, both exact on doubles of this size.
  \<open>Math.pow\<close> and \<open>Math.hypot\<close>, whose results the language leaves to the engine, are a
  parameter of the score and the Euclidean norm of the rounded differences. The mutable
  refs and the React state that the game logic reads and writes are the fields of one state
  record that every operation takes and returns.
\<close>

subsection \<open>Double-precision arithmetic\<close>

text \<open>
  A JavaScript number is an IEEE 754 double: 53 significant bits. \<open>rnd64 x\<close> is the double
  nearest to the real \<open>x\<close>, ties going to the even significand: with \<open>expo x\<close> the binary
  exponent of \<open>x\<close>, the doubles around \<open>x\<close> are the integer multiples of
  \<open>2 ^ (expo x - 52)\<close>. Overflow and subnormal numbers are left out: every value of the
  simulation's arithmetic is far from both. An arithmetic operator of the source is the exact
  operation followed by \<open>rnd64\<close>; a decimal literal is \<open>rnd64\<close> of its value.
\<close>

definition pow2 :: "int \<Rightarrow> real" where
  "pow2 n = (if 0 \<le> n then 2 ^ nat n else 1 / 2 ^ nat (- n))"

definition expo :: "real \<Rightarrow> int" where
  "expo x = \<lfloor>log 2 \<bar>x\<bar>\<rfloor>"

definition roundEven :: "real \<Rightarrow> int" where
  "roundEven k =
     (let f = \<lfloor>k\<rfloor>; r = k - of_int f in
      if r < 1 / 2 then f else if 1 / 2 < r then f + 1 else if even f then f else f + 1)"

definition rnd64 :: "real \<Rightarrow> real" where
  "rnd64 x =
     (if x = 0 then 0
      else let u = pow2 (expo x - 52) in of_int (roundEven (x / u)) * u)"

definition add64 :: "real \<Rightarrow> real \<Rightarrow> real" where
  "add64 a b = rnd64 (a + b)"

definition sub64 :: "real \<Rightarrow> real \<Rightarrow> real" where
  "sub64 a b = rnd64 (a - b)"

definition mul64 :: "real \<Rightarrow> real \<Rightarrow> real" where
  "mul64 a b = rnd64 (a * b)"

definition div64 :: "real \<Rightarrow> real \<Rightarrow> real" where
  "div64 a b = rnd64 (a / b)"

text \<open>The literal \<open>0.8\<close>.\<close>

definition d08 :: real where
  "d08 = rnd64 (8 / 10)"

text \<open>
  \<open>Math.pow\<close> is not part of the program, and the language fixes its result only as an
  approximation that the engine chooses. The score functions take it as a parameter \<open>pw\<close>.
  \<open>pow64\<close> is the correctly rounded power, which the state transition uses; \<open>accurate pw\<close>
  says that \<open>pw\<close>, at base 4, is within one unit in the last place of the exact power, the
  accuracy of the common implementations. The properties of the score hold for every
  accurate \<open>pw\<close>.
\<close>

definition pow64 :: "real \<Rightarrow> real \<Rightarrow> real" where
  "pow64 a b = rnd64 (a powr b)"

definition accurate :: "(real \<Rightarrow> real \<Rightarrow> real) \<Rightarrow> bool" where
  "accurate pw \<longleftrightarrow> (\<forall>y. \<bar>pw 4 y - 4 powr y\<bar> \<le> 4 powr y / 2 ^ 52)"

subsection \<open>Logic constants\<close>

definition GRID_WIDTH :: int where "GRID_WIDTH = 64"
definition GRID_HEIGHT :: int where "GRID_HEIGHT = 48"
definition PLAYER_SPEED :: real where "PLAYER_SPEED = rnd64 (3 / 10)"
definition ENEMY_SPEED :: real where "ENEMY_SPEED = rnd64 (2 / 10)"
definition BOSS_SPEED :: real where "BOSS_SPEED = rnd64 (15 / 100)"
definition WIN_THRESHOLD :: real where "WIN_THRESHOLD = rnd64 (8 / 10)"
definition LEVEL_TIME :: real where "LEVEL_TIME = 90"

subsection \<open>Types of \<open>types.ts\<close>\<close>

datatype GameState = MENU | GENERATING_ASSETS | PLAYING | GAME_OVER | VICTORY

type_synonym Point = "int \<times> int"

datatype EnemyType = Minion | Boss

record Enemy =
  ex :: real
  ey :: real
  vx :: real
  vy :: real
  etype :: EnemyType
  radius :: real

datatype PowerUpType = FREEZE | INVINCIBLE | EXTRA_LIFE | TIME_BONUS

record PowerUp =
  pid :: real
  pux :: int
  puy :: int
  ptype :: PowerUpType

record Player =
  plx :: real
  ply :: real
  dir :: Point

text \<open>The fire-and-forget calls to \<open>audioService\<close>, kept as a log in call order.\<close>

datatype event = PlayStart | PlayDraw | PlayClaim | PlayDie | PlayWin

text \<open>
  A grid is \<open>number[][]\<close>, indexed \<open>grid[y][x]\<close>, with 0 for unowned (Void), 1 for owned
  (Claimed), 2 for the trail; 3 is the scratch mark of the flood fill.
\<close>

type_synonym grid = "nat list list"

definition VOID :: nat where "VOID = 0"
definition CLAIMED :: nat where "CLAIMED = 1"
definition TRAIL :: nat where "TRAIL = 2"
definition ENEMY_ZONE :: nat where "ENEMY_ZONE = 3"

record state =
  grid :: grid
  player :: Player
  enemies :: "Enemy list"
  powerUps :: "PowerUp list"
  lives :: int
  timeLeft :: real
  frozen :: real
  invincible :: real
  isCuttingMode :: bool
  gameState :: GameState
  level :: int
  score :: int
  events :: "event list"

subsection \<open>Grid access\<close>

definition inGrid :: "int \<Rightarrow> int \<Rightarrow> bool" where
  "inGrid x y \<longleftrightarrow> 0 \<le> x \<and> x < GRID_WIDTH \<and> 0 \<le> y \<and> y < GRID_HEIGHT"

text \<open>The border cells, which \<open>initLevel\<close> sets to Claimed.\<close>

definition isBorder :: "int \<Rightarrow> int \<Rightarrow> bool" where
  "isBorder x y \<longleftrightarrow> x = 0 \<or> x = GRID_WIDTH - 1 \<or> y = 0 \<or> y = GRID_HEIGHT - 1"

text \<open>
  The shape \<open>initLevel\<close> creates: \<open>GRID_HEIGHT\<close> rows of \<open>GRID_WIDTH\<close> cells. The source only
  ever assigns to existing cells, so the shape never changes.
\<close>

definition wfGrid :: "grid \<Rightarrow> bool" where
  "wfGrid g \<longleftrightarrow> length g = nat GRID_HEIGHT \<and> (\<forall>r \<in> set g. length r = nat GRID_WIDTH)"

text \<open>\<open>grid[y][x]\<close> and \<open>grid[y][x] = v\<close> at an index the source has bounds-checked.\<close>

definition getCell :: "grid \<Rightarrow> int \<Rightarrow> int \<Rightarrow> nat" where
  "getCell g x y = g ! nat y ! nat x"

definition setCell :: "grid \<Rightarrow> int \<Rightarrow> int \<Rightarrow> nat \<Rightarrow> grid" where
  "setCell g x y v = g[nat y := (g ! nat y)[nat x := v]]"

text \<open>
  \<open>grid[y]\<close> and \<open>grid[y]?.[x]\<close> at an unchecked index: \<open>None\<close> is JavaScript's \<open>undefined\<close>.
\<close>

definition rowAt :: "grid \<Rightarrow> int \<Rightarrow> nat list option" where
  "rowAt g y = (if 0 \<le> y \<and> nat y < length g then Some (g ! nat y) else None)"

definition elemAt :: "nat list \<Rightarrow> int \<Rightarrow> nat option" where
  "elemAt r x = (if 0 \<le> x \<and> nat x < length r then Some (r ! nat x) else None)"

definition cellOpt :: "grid \<Rightarrow> int \<Rightarrow> int \<Rightarrow> nat option" where
  "cellOpt g x y = (case rowAt g y of None \<Rightarrow> None | Some r \<Rightarrow> elemAt r x)"

text \<open>
  The loop nest \<open>for (y = 0; y < GRID_HEIGHT; y++) for (x = 0; x < GRID_WIDTH; x++) body\<close>,
  threading whatever the body updates.
\<close>

definition scanCells :: "(int \<Rightarrow> int \<Rightarrow> 'a \<Rightarrow> 'a) \<Rightarrow> 'a \<Rightarrow> 'a" where
  "scanCells body =
     fold (\<lambda>y. fold (\<lambda>x. body x y) [0..GRID_WIDTH - 1]) [0..GRID_HEIGHT - 1]"

definition owned :: "grid \<Rightarrow> int" where
  "owned g = scanCells (\<lambda>x y n. if getCell g x y = CLAIMED then n + 1 else n) 0"

subsection \<open>Death (\<open>handleDeath\<close>)\<close>

definition clearTrail :: "grid \<Rightarrow> grid" where
  "clearTrail = scanCells (\<lambda>x y g. if getCell g x y = TRAIL then setCell g x y VOID else g)"

definition spawnPlayer :: Player where
  "spawnPlayer = \<lparr>plx = real_of_int GRID_WIDTH / 2, ply = 0, dir = (0, 0)\<rparr>"

text \<open>\<open>onGameOver\<close> is \<open>handleGameOver\<close> of the shell (the saved high-score list is left out).\<close>

definition onGameOver :: "bool \<Rightarrow> state \<Rightarrow> state" where
  "onGameOver win s = s\<lparr>gameState := (if win then VICTORY else GAME_OVER)\<rparr>"

definition handleDeath :: "state \<Rightarrow> state" where
  "handleDeath s =
     (let s1 = s\<lparr>events := events s @ [PlayDie], lives := lives s - 1\<rparr>;
          s2 = s1\<lparr>grid := clearTrail (grid s1)\<rparr>;
          s3 = s2\<lparr>player := spawnPlayer, isCuttingMode := False\<rparr>
      in if lives s3 \<le> 0 then onGameOver False s3 else s3)"

subsection \<open>Flood fill (\<open>floodFill\<close>)\<close>

definition dirs :: "Point list" where
  "dirs = [(0, 1), (0, -1), (1, 0), (-1, 0)]"

text \<open>One round of \<open>for (const d of dirs)\<close> for the popped point \<open>p\<close>.\<close>

definition visit :: "nat \<Rightarrow> nat \<Rightarrow> Point \<Rightarrow> Point \<Rightarrow> grid \<times> Point list \<Rightarrow> grid \<times> Point list" where
  "visit targetVal replaceVal p d gq =
     (let nx = fst p + fst d; ny = snd p + snd d in
      if nx \<ge> 0 \<and> nx < GRID_WIDTH \<and> ny \<ge> 0 \<and> ny < GRID_HEIGHT
         \<and> getCell (fst gq) nx ny = targetVal
      then (setCell (fst gq) nx ny replaceVal, snd gq @ [(nx, ny)])
      else gq)"

text \<open>
  The \<open>while (queue.length > 0)\<close> loop; \<open>queue.pop()\<close> takes the last element. \<open>None\<close> is a
  loop that never ends.
\<close>

partial_function (option) floodLoop ::
  "nat \<Rightarrow> nat \<Rightarrow> grid \<times> Point list \<times> int \<Rightarrow> (grid \<times> int) option" where
  "floodLoop targetVal replaceVal st =
     (case st of (g, queue, count) \<Rightarrow>
        if queue = [] then Some (g, count)
        else (case fold (visit targetVal replaceVal (last queue)) dirs (g, butlast queue) of
                (g', queue') \<Rightarrow> floodLoop targetVal replaceVal (g', queue', count + 1)))"

text \<open>The filled grid (the source fills its argument in place) and the returned count.\<close>

definition floodFill :: "grid \<Rightarrow> int \<Rightarrow> int \<Rightarrow> nat \<Rightarrow> nat \<Rightarrow> (grid \<times> int) option" where
  "floodFill g startX startY targetVal replaceVal =
     (if startX < 0 \<or> startX \<ge> GRID_WIDTH \<or> startY < 0 \<or> startY \<ge> GRID_HEIGHT then Some (g, 0)
      else if getCell g startX startY \<noteq> targetVal then Some (g, 0)
      else floodLoop targetVal replaceVal (setCell g startX startY replaceVal, [(startX, startY)], 0))"

subsection \<open>Power-ups and cut resolution (\<open>applyPowerUp\<close>, \<open>resolveFill\<close>)\<close>

text \<open>
  \<open>now\<close> is the value of \<open>Date.now()\<close>, which \<open>applyPowerUp\<close> reads at each call; the calls of
  one resolution are given one reading.
\<close>

definition applyPowerUp :: "real \<Rightarrow> PowerUpType \<Rightarrow> state \<Rightarrow> state" where
  "applyPowerUp now t s =
     (let s1 = s\<lparr>events := events s @ [PlayClaim]\<rparr> in
      case t of
        FREEZE \<Rightarrow> s1\<lparr>frozen := add64 now 5000\<rparr>
      | INVINCIBLE \<Rightarrow> s1\<lparr>invincible := add64 now 7000\<rparr>
      | EXTRA_LIFE \<Rightarrow> s1\<lparr>lives := lives s1 + 1\<rparr>
      | TIME_BONUS \<Rightarrow> s1\<lparr>timeLeft := add64 (timeLeft s1) 30\<rparr>)"

text \<open>
  The safety check of \<open>resolveFill\<close>: the seed is the boss's cell, or else its first Void
  neighbour in the order of \<open>neighbors\<close>. Reading \<open>tempGrid[startY][startX]\<close> in a row that
  does not exist is a TypeError, the result \<open>None\<close>.
\<close>

definition neighbors :: "Point list" where
  "neighbors = [(0, 1), (0, -1), (1, 0), (-1, 0)]"

definition seedOf :: "grid \<Rightarrow> int \<Rightarrow> int \<Rightarrow> Point option" where
  "seedOf tempGrid startX startY =
     (case rowAt tempGrid startY of
        None \<Rightarrow> None
      | Some row \<Rightarrow>
          if elemAt row startX \<noteq> Some VOID then
            (case find (\<lambda>n. cellOpt tempGrid (startX + fst n) (startY + snd n) = Some VOID) neighbors of
               Some n \<Rightarrow> Some (startX + fst n, startY + snd n)
             | None \<Rightarrow> Some (startX, startY))
          else Some (startX, startY))"

text \<open>The body of the scan that claims what the fill did not reach.\<close>

definition capture :: "grid \<Rightarrow> int \<Rightarrow> int \<Rightarrow> grid \<times> int \<times> Point list \<Rightarrow> grid \<times> int \<times> Point list" where
  "capture tempGrid x y acc =
     (case acc of (g, capturedCount, claimedPoints) \<Rightarrow>
        if getCell tempGrid x y = VOID
        then (setCell g x y CLAIMED, capturedCount + 1, claimedPoints @ [(x, y)])
        else acc)"

text \<open>
  The \<open>filter\<close> over the live power-ups, whose callback applies a captured power-up before
  dropping it: the kept power-ups and the state after the applications. A power-up in a row
  that does not exist is a TypeError.
\<close>

fun filterPowerUps :: "real \<Rightarrow> PowerUp list \<Rightarrow> state \<Rightarrow> (PowerUp list \<times> state) option" where
  "filterPowerUps now [] s = Some ([], s)"
| "filterPowerUps now (p # ps) s =
     (case rowAt (grid s) (puy p) of
        None \<Rightarrow> None
      | Some row \<Rightarrow>
          if elemAt row (pux p) = Some CLAIMED
          then filterPowerUps now ps (applyPowerUp now (ptype p) s)
          else (case filterPowerUps now ps s of
                  None \<Rightarrow> None
                | Some (kept, s') \<Rightarrow> Some (p # kept, s')))"

text \<open>
  The geometric scoring of \<open>resolveFill\<close>: \<open>multiplier\<close> and \<open>addedScore\<close>, in the source's
  double arithmetic, with \<open>pw\<close> for \<open>Math.pow\<close>.
\<close>

definition multiplierOf :: "(real \<Rightarrow> real \<Rightarrow> real) \<Rightarrow> real \<Rightarrow> real" where
  "multiplierOf pw currentPercent =
     (if currentPercent > d08 then pw 4 (mul64 (sub64 currentPercent d08) 10) else 1)"

definition addedScore :: "(real \<Rightarrow> real \<Rightarrow> real) \<Rightarrow> int \<Rightarrow> real \<Rightarrow> int" where
  "addedScore pw capturedCount currentPercent =
     \<lfloor>mul64 (mul64 (of_int capturedCount) 10) (multiplierOf pw currentPercent)\<rfloor>"

text \<open>
  The score formula in the words of the specification, over the reals: the multiplier is 1
  up to an owned fraction of 0.8 and \<open>4 ^ ((fraction - 0.8) * 10)\<close> above it, and the delta is
  the floor of \<open>capturedCount * 10 * multiplier\<close>. It is what \<open>addedScore\<close> is compared with.
\<close>

definition specDelta :: "int \<Rightarrow> real \<Rightarrow> int" where
  "specDelta capturedCount ownedFraction =
     \<lfloor>of_int capturedCount * 10 *
        (if ownedFraction \<le> 8 / 10 then 1 else 4 powr ((ownedFraction - 8 / 10) * 10))\<rfloor>"

text \<open>
  The first half of \<open>resolveFill\<close>, for the boss found: seed, fill of the working copy,
  and the scan that claims on the real grid what is still 0 in the copy. The result is the
  grid with \<open>capturedCount\<close> and \<open>claimedPoints\<close>.
\<close>

definition captureRegions :: "grid \<Rightarrow> Enemy \<Rightarrow> (grid \<times> int \<times> Point list) option" where
  "captureRegions g boss =
     (case seedOf g \<lfloor>ex boss\<rfloor> \<lfloor>ey boss\<rfloor> of
        None \<Rightarrow> None
      | Some (startX, startY) \<Rightarrow>
         (case floodFill g startX startY VOID ENEMY_ZONE of
            None \<Rightarrow> None
          | Some (tempGrid, n) \<Rightarrow> Some (scanCells (capture tempGrid) (g, 0, []))))"

definition resolveFill :: "real \<Rightarrow> real \<Rightarrow> state \<Rightarrow> state option" where
  "resolveFill now currentPercent s =
     (case find (\<lambda>e. etype e = Boss) (enemies s) of
        None \<Rightarrow> Some s
      | Some boss \<Rightarrow>
         (case captureRegions (grid s) boss of
            None \<Rightarrow> None
          | Some (g, capturedCount, claimedPoints) \<Rightarrow>
             (case filterPowerUps now (powerUps s) (s\<lparr>grid := g\<rparr>) of
                None \<Rightarrow> None
              | Some (kept, s1) \<Rightarrow>
                  let s2 = s1\<lparr>powerUps := kept\<rparr> in
                  Some (if capturedCount > 0
                        then s2\<lparr>events := events s2 @ [PlayClaim],
                                score := score s2 + addedScore pow64 capturedCount currentPercent\<rparr>
                        else s2))))"

subsection \<open>Regions\<close>

text \<open>The cells of the grid.\<close>

definition cells :: "Point set" where
  "cells = {(x, y). inGrid x y}"

text \<open>
  Two cells are 4-neighbours when they are one step apart along exactly one axis, which is
  stated on the coordinates and not through the table of directions that the flood fill
  walks. Two cells are linked when they are 4-neighbours inside the grid and both hold the
  value \<open>t\<close>; the region of a cell is what a chain of links reaches from it.
\<close>

definition adj4 :: "Point \<Rightarrow> Point \<Rightarrow> bool" where
  "adj4 p q \<longleftrightarrow> \<bar>fst p - fst q\<bar> + \<bar>snd p - snd q\<bar> = 1"

definition hasVal :: "grid \<Rightarrow> nat \<Rightarrow> Point \<Rightarrow> bool" where
  "hasVal g t p \<longleftrightarrow> inGrid (fst p) (snd p) \<and> getCell g (fst p) (snd p) = t"

definition link :: "grid \<Rightarrow> nat \<Rightarrow> (Point \<times> Point) set" where
  "link g t = {(p, q). hasVal g t p \<and> hasVal g t q \<and> adj4 p q}"

definition region :: "grid \<Rightarrow> nat \<Rightarrow> Point \<Rightarrow> Point set" where
  "region g t s = {c. hasVal g t s \<and> (s, c) \<in> (link g t)\<^sup>*}"

text \<open>
  The boss's cell, and the Void cells 4-connected to it: those joined to the boss's cell by
  a chain of 4-neighbour steps through Void cells, where the boss's own cell need not be
  Void. They form exactly one region when there is such a cell and any two of them are
  linked through Void cells.
\<close>

definition cellOf :: "Enemy \<Rightarrow> Point" where
  "cellOf e = (\<lfloor>ex e\<rfloor>, \<lfloor>ey e\<rfloor>)"

definition bossConnected :: "grid \<Rightarrow> Point \<Rightarrow> Point \<Rightarrow> bool" where
  "bossConnected g b c \<longleftrightarrow>
     hasVal g VOID c \<and> (c \<in> region g VOID b \<or> (\<exists>n. adj4 b n \<and> c \<in> region g VOID n))"

definition oneBossRegion :: "grid \<Rightarrow> Point \<Rightarrow> bool" where
  "oneBossRegion g b \<longleftrightarrow>
     (\<exists>c. bossConnected g b c)
     \<and> (\<forall>c c'. bossConnected g b c \<and> bossConnected g b c' \<longrightarrow> c' \<in> region g VOID c)"

definition powerUpsInGrid :: "state \<Rightarrow> bool" where
  "powerUpsInGrid s \<longleftrightarrow> (\<forall>p \<in> set (powerUps s). inGrid (pux p) (puy p))"

text \<open>
  The live power-ups whose cell is Claimed in a grid, in the order of the live set. The
  fold of \<open>applyPowerUp\<close> over a list of power-ups is only a device of the proofs.
\<close>

definition capturedPowerUps :: "grid \<Rightarrow> PowerUp list \<Rightarrow> PowerUp list" where
  "capturedPowerUps g ps = filter (\<lambda>p. getCell g (pux p) (puy p) = CLAIMED) ps"

definition applyAll :: "real \<Rightarrow> PowerUp list \<Rightarrow> state \<Rightarrow> state" where
  "applyAll now ps s = fold (\<lambda>p. applyPowerUp now (ptype p)) ps s"

text \<open>
  The loop invariant of the fill from \<open>s\<close> in the grid \<open>g0\<close>: the cells marked so far are
  the cells whose target value has been replaced; they all belong to the region of \<open>s\<close>,
  and every marked cell that has left the queue has all its linked neighbours marked.
\<close>

definition shift :: "Point \<Rightarrow> Point \<Rightarrow> Point" where
  "shift p d = (fst p + fst d, snd p + snd d)"

definition marked :: "grid \<Rightarrow> nat \<Rightarrow> grid \<Rightarrow> Point set" where
  "marked g0 t g = {p. hasVal g0 t p \<and> \<not> hasVal g t p}"

definition fillBase :: "grid \<Rightarrow> nat \<Rightarrow> nat \<Rightarrow> Point \<Rightarrow> grid \<Rightarrow> Point list \<Rightarrow> bool" where
  "fillBase g0 t r s g q \<longleftrightarrow>
     wfGrid g
     \<and> (\<forall>p. inGrid (fst p) (snd p) \<longrightarrow>
           getCell g (fst p) (snd p) = (if p \<in> marked g0 t g then r else getCell g0 (fst p) (snd p)))
     \<and> s \<in> marked g0 t g \<and> set q \<subseteq> marked g0 t g \<and> marked g0 t g \<subseteq> region g0 t s"

definition closedAt :: "grid \<Rightarrow> nat \<Rightarrow> Point set \<Rightarrow> Point list \<Rightarrow> Point \<Rightarrow> bool" where
  "closedAt g0 t M ds p \<longleftrightarrow> (\<forall>d \<in> set ds. hasVal g0 t (shift p d) \<longrightarrow> shift p d \<in> M)"

definition fillInv :: "grid \<Rightarrow> nat \<Rightarrow> nat \<Rightarrow> Point \<Rightarrow> grid \<times> Point list \<times> int \<Rightarrow> bool" where
  "fillInv g0 t r s st \<longleftrightarrow>
     (case st of (g, q, count) \<Rightarrow>
        fillBase g0 t r s g q
        \<and> (\<forall>p \<in> marked g0 t g - set q. closedAt g0 t (marked g0 t g) dirs p)
        \<and> count + int (length q) = int (card (marked g0 t g)))"

definition fillMid ::
  "grid \<Rightarrow> nat \<Rightarrow> nat \<Rightarrow> Point \<Rightarrow> Point \<Rightarrow> int \<Rightarrow> nat \<Rightarrow> Point list \<Rightarrow> grid \<times> Point list \<Rightarrow> bool" where
  "fillMid g0 t r s p count bound ds gq \<longleftrightarrow>
     (case gq of (g, q) \<Rightarrow>
        fillBase g0 t r s g q \<and> p \<in> marked g0 t g
        \<and> (\<forall>p' \<in> marked g0 t g - set q - {p}. closedAt g0 t (marked g0 t g) dirs p')
        \<and> closedAt g0 t (marked g0 t g) ds p
        \<and> count + int (length q) = int (card (marked g0 t g))
        \<and> 2 * card {c. hasVal g t c} + length q \<le> bound)"

subsection \<open>Level initialisation (\<open>initLevel\<close>) and the shell's level flow\<close>

text \<open>
  \<open>rnd\<close> is the sequence of results of \<open>Math.random()\<close>, in call order: two draws for the
  boss's velocity, then four per minion (x, y, vx, vy).
\<close>

definition newGrid :: grid where
  "newGrid =
     scanCells (\<lambda>x y g. if x = 0 \<or> x = GRID_WIDTH - 1 \<or> y = 0 \<or> y = GRID_HEIGHT - 1
                         then setCell g x y CLAIMED else g)
       (replicate (nat GRID_HEIGHT) (replicate (nat GRID_WIDTH) VOID))"

definition newBoss :: "(nat \<Rightarrow> real) \<Rightarrow> Enemy" where
  "newBoss rnd =
     \<lparr>ex = real_of_int GRID_WIDTH / 2, ey = real_of_int GRID_HEIGHT / 2,
      vx = (if rnd 0 > 1 / 2 then BOSS_SPEED else - BOSS_SPEED),
      vy = (if rnd 1 > 1 / 2 then BOSS_SPEED else - BOSS_SPEED),
      etype = Boss, radius = 7 / 2\<rparr>"

definition newMinion :: "(nat \<Rightarrow> real) \<Rightarrow> nat \<Rightarrow> Enemy" where
  "newMinion rnd i =
     \<lparr>ex = add64 (mul64 (rnd (2 + 4 * i)) (real_of_int (GRID_WIDTH - 4))) 2,
      ey = add64 (mul64 (rnd (3 + 4 * i)) (real_of_int (GRID_HEIGHT - 4))) 2,
      vx = (if rnd (4 + 4 * i) > 1 / 2 then ENEMY_SPEED else - ENEMY_SPEED),
      vy = (if rnd (5 + 4 * i) > 1 / 2 then ENEMY_SPEED else - ENEMY_SPEED),
      etype = Minion, radius = rnd64 (12 / 10)\<rparr>"

definition initLevel :: "(nat \<Rightarrow> real) \<Rightarrow> state \<Rightarrow> state" where
  "initLevel rnd s =
     s\<lparr>grid := newGrid,
       player := spawnPlayer,
       isCuttingMode := False,
       invincible := 0,
       frozen := 0,
       enemies := newBoss rnd # map (newMinion rnd) [0..<nat (3 + level s)],
       powerUps := [],
       timeLeft := LEVEL_TIME\<rparr>"

text \<open>
  The effect of \<open>GameCanvas\<close> with dependencies \<open>[gameState, initLevel]\<close>: it runs when the
  canvas is mounted, which the shell does only while the game state is \<open>PLAYING\<close>.
\<close>

definition playingEffect :: "(nat \<Rightarrow> real) \<Rightarrow> state \<Rightarrow> state" where
  "playingEffect rnd s =
     (if gameState s = PLAYING then (initLevel rnd s)\<lparr>lives := 3\<rparr> else s)"

text \<open>
  The shell: \<open>loadLevelAssets\<close> switches to \<open>GENERATING_ASSETS\<close> and fetches the assets (not
  modelled); \<open>assetsReady\<close> is its timeout callback, which switches to \<open>PLAYING\<close>, and with
  that mounts the canvas.
\<close>

definition loadLevelAssets :: "int \<Rightarrow> state \<Rightarrow> state" where
  "loadLevelAssets lvlIdx s = s\<lparr>gameState := GENERATING_ASSETS\<rparr>"

definition assetsReady :: "(nat \<Rightarrow> real) \<Rightarrow> state \<Rightarrow> state" where
  "assetsReady rnd s = playingEffect rnd (s\<lparr>gameState := PLAYING, events := events s @ [PlayStart]\<rparr>)"

definition handleStart :: "state \<Rightarrow> state" where
  "handleStart s = loadLevelAssets 0 (s\<lparr>level := 0, score := 0\<rparr>)"

definition handleNextLevel :: "state \<Rightarrow> state" where
  "handleNextLevel s = loadLevelAssets (level s + 1) (s\<lparr>level := level s + 1\<rparr>)"

subsection \<open>One simulation tick (\<open>update\<close>)\<close>

text \<open>
  What a tick takes from outside: \<open>Date.now()\<close> (taken to be the same at every call within
  the tick), the frame delta \<open>dt\<close> in seconds, the keys held, and the results of
  \<open>Math.random()\<close> in call order.
\<close>

record tickInput =
  inNow :: real
  inDt :: real
  inKeys :: "string set"
  inRandom :: "nat \<Rightarrow> real"

text \<open>\<open>Math.random()\<close> is in [0, 1), so \<open>px\<close> and \<open>py\<close> index an interior cell.\<close>

definition spawnPowerUp :: "real \<Rightarrow> (nat \<Rightarrow> real) \<Rightarrow> state \<Rightarrow> state" where
  "spawnPowerUp now r s =
     (if r 0 > rnd64 (5 / 1000) then s
      else if length (powerUps s) > 2 then s
      else
        let typeProb = r 1;
            type = (if typeProb < 25 / 100 then FREEZE
                    else if typeProb < 5 / 10 then INVINCIBLE
                    else if typeProb < 75 / 100 then EXTRA_LIFE
                    else TIME_BONUS);
            px = \<lfloor>mul64 (r 2) (real_of_int (GRID_WIDTH - 2))\<rfloor> + 1;
            py = \<lfloor>mul64 (r 3) (real_of_int (GRID_HEIGHT - 2))\<rfloor> + 1
        in if getCell (grid s) px py = VOID
           then s\<lparr>powerUps := powerUps s @ [\<lparr>pid = add64 now (r 4), pux = px, puy = py, ptype = type\<rparr>]\<rparr>
           else s)"

definition keyDir :: "string set \<Rightarrow> Point" where
  "keyDir keys =
     (if ''ArrowUp'' \<in> keys then (0, -1)
      else if ''ArrowDown'' \<in> keys then (0, 1)
      else if ''ArrowLeft'' \<in> keys then (-1, 0)
      else if ''ArrowRight'' \<in> keys then (1, 0)
      else (0, 0))"

definition jsRound :: "real \<Rightarrow> int" where
  "jsRound v = \<lfloor>v + 1 / 2\<rfloor>"

text \<open>
  The "Finished Cut" block: every Trail cell becomes Claimed, and if there was one, the
  owned fraction is measured and the fill resolved.
\<close>

definition convertTrail :: "grid \<times> bool \<Rightarrow> grid \<times> bool" where
  "convertTrail =
     scanCells (\<lambda>x y acc. case acc of (g, trailExists) \<Rightarrow>
                  if getCell g x y = TRAIL then (setCell g x y CLAIMED, True) else acc)"

definition finishCut :: "real \<Rightarrow> state \<Rightarrow> state option" where
  "finishCut now s =
     (case convertTrail (grid s, False) of
        (g, trailExists) \<Rightarrow>
          if trailExists
          then resolveFill now (div64 (real_of_int (owned g)) (real_of_int (GRID_WIDTH * GRID_HEIGHT)))
                 (s\<lparr>grid := g\<rparr>)
          else Some (s\<lparr>grid := g\<rparr>))"

definition movePlayer :: "real \<Rightarrow> string set \<Rightarrow> state \<Rightarrow> state option" where
  "movePlayer now keys s =
     (case keyDir keys of
        (dx, dy) \<Rightarrow>
          let s0 = (if dx \<noteq> 0 \<or> dy \<noteq> 0 then s\<lparr>player := (player s)\<lparr>dir := (dx, dy)\<rparr>\<rparr> else s);
              currentGx = jsRound (plx (player s0));
              currentGy = jsRound (ply (player s0));
              isCurrentlyDrawing = (cellOpt (grid s0) currentGx currentGy = Some TRAIL)
          in
          if dx \<noteq> 0 \<or> dy \<noteq> 0 then
            let nextX = add64 (plx (player s0)) (mul64 (real_of_int dx) PLAYER_SPEED);
                nextY = add64 (ply (player s0)) (mul64 (real_of_int dy) PLAYER_SPEED)
            in
            if nextX \<ge> 0 \<and> nextX \<le> real_of_int (GRID_WIDTH - 1)
               \<and> nextY \<ge> 0 \<and> nextY \<le> real_of_int (GRID_HEIGHT - 1) then
              let gx = jsRound nextX;
                  gy = jsRound nextY;
                  isNextSafe = (getCell (grid s0) gx gy = CLAIMED)
              in
              if isNextSafe then
                let s1 = s0\<lparr>player := (player s0)\<lparr>plx := nextX, ply := nextY\<rparr>\<rparr>
                in if isCurrentlyDrawing then finishCut now s1 else Some s1
              else if isCuttingMode s0 \<or> isCurrentlyDrawing then
                Some (s0\<lparr>player := (player s0)\<lparr>plx := nextX, ply := nextY\<rparr>,
                         grid := setCell (grid s0) gx gy TRAIL,
                         events := events s0 @ [PlayDraw]\<rparr>)
              else Some s0
            else Some s0
          else Some s0)"

definition checkCollision :: "grid \<Rightarrow> real \<Rightarrow> real \<Rightarrow> bool" where
  "checkCollision g x y =
     (let gx = \<lfloor>x\<rfloor>; gy = \<lfloor>y\<rfloor> in
      if gx < 0 \<or> gx \<ge> GRID_WIDTH \<or> gy < 0 \<or> gy \<ge> GRID_HEIGHT then True
      else getCell g gx gy = CLAIMED)"

text \<open>The first half of the \<open>forEach\<close> callback: advance, then bounce per axis.\<close>

definition moveEnemy :: "grid \<Rightarrow> Enemy \<Rightarrow> Enemy" where
  "moveEnemy g enemy =
     (let e1 = enemy\<lparr>ex := add64 (ex enemy) (vx enemy), ey := add64 (ey enemy) (vy enemy)\<rparr>;
          e2 = (if checkCollision g (add64 (ex e1) (vx e1)) (ey e1)
                then e1\<lparr>vx := mul64 (vx e1) (- 1)\<rparr> else e1);
          e3 = (if checkCollision g (ex e2) (add64 (ey e2) (vy e2))
                then e2\<lparr>vy := mul64 (vy e2) (- 1)\<rparr> else e2)
      in e3)"

text \<open>
  The second half: collision with the trail or the player. Reading
  \<open>grid[playerGy][playerGx]\<close> in a row that does not exist is a TypeError.
\<close>

definition collide :: "real \<Rightarrow> Enemy \<Rightarrow> state \<Rightarrow> state option" where
  "collide now enemy s =
     (let gx = \<lfloor>ex enemy\<rfloor>;
          gy = \<lfloor>ey enemy\<rfloor>;
          hitTrace = (gx \<ge> 0 \<and> gx < GRID_WIDTH \<and> gy \<ge> 0 \<and> gy < GRID_HEIGHT
                      \<and> getCell (grid s) gx gy = TRAIL);
          distToPlayer = sqrt ((sub64 (plx (player s)) (ex enemy))\<^sup>2
                               + (sub64 (ply (player s)) (ey enemy))\<^sup>2);
          playerGx = jsRound (plx (player s));
          playerGy = jsRound (ply (player s))
      in case rowAt (grid s) playerGy of
           None \<Rightarrow> None
         | Some row \<Rightarrow>
             let isPlayerSafe = (elemAt row playerGx = Some CLAIMED);
                 isPlayerInvincible = (now < invincible s)
             in Some (if hitTrace \<and> \<not> isPlayerInvincible then handleDeath s
                      else if distToPlayer < add64 (radius enemy) (1 / 2) \<and> \<not> isPlayerInvincible
                      then (if \<not> isPlayerSafe then handleDeath s else s)
                      else s))"

text \<open>\<open>enemiesRef.current.forEach\<close>: the enemies as left by the callback, and the state.\<close>

fun stepEnemies :: "real \<Rightarrow> Enemy list \<Rightarrow> state \<Rightarrow> (Enemy list \<times> state) option" where
  "stepEnemies now [] s = Some ([], s)"
| "stepEnemies now (enemy # rest) s =
     (let e = moveEnemy (grid s) enemy in
      case collide now e s of
        None \<Rightarrow> None
      | Some s1 \<Rightarrow>
          (case stepEnemies now rest s1 of
             None \<Rightarrow> None
           | Some (es, s2) \<Rightarrow> Some (e # es, s2)))"

definition winCheck :: "state \<Rightarrow> state" where
  "winCheck s =
     (let p = div64 (real_of_int (owned (grid s))) (real_of_int (GRID_WIDTH * GRID_HEIGHT)) in
      if p \<ge> WIN_THRESHOLD then onGameOver True (s\<lparr>events := events s @ [PlayWin]\<rparr>) else s)"

definition update :: "tickInput \<Rightarrow> state \<Rightarrow> state option" where
  "update inp s =
     (let s1 = s\<lparr>timeLeft := sub64 (timeLeft s) (inDt inp)\<rparr> in
      if timeLeft s1 \<le> 0 then Some (onGameOver False s1)
      else
        let isFrozen = (inNow inp < frozen s1);
            s2 = spawnPowerUp (inNow inp) (inRandom inp) s1
        in case movePlayer (inNow inp) (inKeys inp) s2 of
             None \<Rightarrow> None
           | Some s3 \<Rightarrow>
               (case (if \<not> isFrozen then stepEnemies (inNow inp) (enemies s3) s3
                      else Some (enemies s3, s3)) of
                  None \<Rightarrow> None
                | Some (es, s4) \<Rightarrow> Some (winCheck (s4\<lparr>enemies := es\<rparr>))))"




text \<open>
  A grid keeps the Claimed cells of another when it has the shape of a grid and every cell
  Claimed there is Claimed in it. The number of deaths so far is the number of \<open>playDie\<close>
  calls, one per \<open>handleDeath\<close>.
\<close>

definition keepsClaimed :: "grid \<Rightarrow> grid \<Rightarrow> bool" where
  "keepsClaimed g g' \<longleftrightarrow>
     wfGrid g' \<and> (\<forall>x y. inGrid x y \<and> getCell g x y = CLAIMED \<longrightarrow> getCell g' x y = CLAIMED)"

text \<open>
  The spawn cell is the cell of the spawn position; a state is respawned when the player
  stands on the spawn position, the spawn cell is Claimed and no cell is Trail. The player
  is in the field when the position is within the bounds that movement checks.
\<close>

definition spawnCell :: Point where
  "spawnCell = (jsRound (plx spawnPlayer), jsRound (ply spawnPlayer))"

definition respawned :: "state \<Rightarrow> bool" where
  "respawned s \<longleftrightarrow>
     wfGrid (grid s) \<and> player s = spawnPlayer
     \<and> getCell (grid s) (fst spawnCell) (snd spawnCell) = CLAIMED
     \<and> (\<forall>x y. inGrid x y \<longrightarrow> getCell (grid s) x y \<noteq> TRAIL)"

definition playerInField :: "state \<Rightarrow> bool" where
  "playerInField s \<longleftrightarrow>
     0 \<le> plx (player s) \<and> plx (player s) \<le> real_of_int (GRID_WIDTH - 1)
     \<and> 0 \<le> ply (player s) \<and> ply (player s) \<le> real_of_int (GRID_HEIGHT - 1)"

definition deaths :: "state \<Rightarrow> nat" where
  "deaths s = count_list (events s) PlayDie"





subsection \<open>Example states\<close>

text \<open>A grid given cell by cell, and a state around it after a won level.\<close>

definition mkGrid :: "(int \<Rightarrow> int \<Rightarrow> nat) \<Rightarrow> grid" where
  "mkGrid f = map (\<lambda>y. map (\<lambda>x. f x y) [0..GRID_WIDTH - 1]) [0..GRID_HEIGHT - 1]"

definition bossAt :: "real \<Rightarrow> real \<Rightarrow> Enemy" where
  "bossAt bx by = \<lparr>ex = bx, ey = by, vx = BOSS_SPEED, vy = BOSS_SPEED, etype = Boss, radius = 7 / 2\<rparr>"

definition stateOf :: "grid \<Rightarrow> state" where
  "stateOf g =
     \<lparr>grid = g, player = spawnPlayer, enemies = [bossAt 32 24], powerUps = [], lives = 3,
      timeLeft = LEVEL_TIME, frozen = 0, invincible = 0, isCuttingMode = False,
      gameState = PLAYING, level = 0, score = 0, events = []\<rparr>"

definition trailGrid :: grid where
  "trailGrid = mkGrid (\<lambda>x y. if isBorder x y then CLAIMED
                              else if x = 5 \<and> y \<le> 3 then TRAIL else VOID)"

definition cuttingState :: state where
  "cuttingState = (stateOf trailGrid)
     \<lparr>player := \<lparr>plx = 5, ply = 27 / 8, dir = (0, 1)\<rparr>, isCuttingMode := True, lives := 2\<rparr>"

text \<open>
  The cutting player hunted: the boss far away and two minions that both step onto the
  trail in the next tick, in which no key is held and no power-up spawns.
\<close>

definition minionAt :: "real \<Rightarrow> real \<Rightarrow> Enemy" where
  "minionAt mx my = \<lparr>ex = mx, ey = my, vx = ENEMY_SPEED, vy = ENEMY_SPEED, etype = Minion, radius = rnd64 (12 / 10)\<rparr>"

definition huntedState :: state where
  "huntedState = cuttingState\<lparr>enemies := [bossAt 32 24, minionAt (41 / 8) (15 / 8), minionAt (41 / 8) (7 / 8)]\<rparr>"

definition noSpawn :: "nat \<Rightarrow> real" where
  "noSpawn i = 1 / 2"

definition idleInput :: tickInput where
  "idleInput = \<lparr>inNow = 1000, inDt = 1 / 64, inKeys = {}, inRandom = noSpawn\<rparr>"

definition downInput :: tickInput where
  "downInput = \<lparr>inNow = 1000, inDt = 1 / 64, inKeys = {''ArrowDown''}, inRandom = noSpawn\<rparr>"








text \<open>A player standing on the border just off the spawn position, cutting-mode off.\<close>

definition borderState :: state where
  "borderState = (stateOf newGrid)\<lparr>player := \<lparr>plx = 32, ply = 3 / 8, dir = (0, 0)\<rparr>\<rparr>"

definition noRandom :: "nat \<Rightarrow> real" where
  "noRandom i = 0"

text \<open>
  Claimed ground with seven Void cells in three regions: the boss's region of three cells,
  \<open>(32, 24)\<close>, \<open>(33, 24)\<close> and \<open>(33, 25)\<close>; the cell \<open>(34, 26)\<close>, which touches that region
  only by a corner; and a pocket of three cells, \<open>(5, 5)\<close>, \<open>(5, 6)\<close> and \<open>(6, 6)\<close>. There is a
  power-up in the pocket, one on the corner cell and one on the boss's cell.
\<close>

definition islandGrid :: grid where
  "islandGrid = mkGrid (\<lambda>x y. if (x = 32 \<and> y = 24) \<or> (x = 33 \<and> y = 24) \<or> (x = 33 \<and> y = 25)
                                   \<or> (x = 34 \<and> y = 26)
                                   \<or> (x = 5 \<and> y = 5) \<or> (x = 5 \<and> y = 6) \<or> (x = 6 \<and> y = 6)
                                then VOID else CLAIMED)"

definition islandState :: state where
  "islandState = (stateOf islandGrid)
     \<lparr>enemies := [bossAt (65 / 2) (99 / 4)],
      powerUps := [\<lparr>pid = 1, pux = 5, puy = 5, ptype = EXTRA_LIFE\<rparr>,
                   \<lparr>pid = 2, pux = 32, puy = 24, ptype = FREEZE\<rparr>,
                   \<lparr>pid = 3, pux = 34, puy = 26, ptype = TIME_BONUS\<rparr>]\<rparr>"

text \<open>
  The boss on a Claimed block of three by three cells inside the Claimed border, everything
  else Void, and a power-up on a Void cell.
\<close>

definition walledGrid :: grid where
  "walledGrid = mkGrid (\<lambda>x y. if isBorder x y \<or> (31 \<le> x \<and> x \<le> 33 \<and> 23 \<le> y \<and> y \<le> 25)
                                then CLAIMED else VOID)"

definition walledState :: state where
  "walledState = (stateOf walledGrid)
     \<lparr>enemies := [bossAt (65 / 2) (99 / 4)],
      powerUps := [\<lparr>pid = 1, pux = 5, puy = 5, ptype = EXTRA_LIFE\<rparr>]\<rparr>"

definition wonState :: state where
  "wonState = (stateOf newGrid)\<lparr>lives := 5, score := 1200, gameState := VICTORY\<rparr>"

section \<open>Properties\<close>

subsection \<open>Rounding to double precision\<close>

lemma pow2_powr: "pow2 n = 2 powr (of_int n)"
  by (simp add: pow2_def powr_int)

lemma pow2_pos [simp]: "0 < pow2 n"
  by (simp add: pow2_powr)

lemma pow2_add: "pow2 (m + n) = pow2 m * pow2 n"
  by (simp add: pow2_powr powr_add)

lemma expo_eq:
  assumes "pow2 n \<le> \<bar>x\<bar>" "\<bar>x\<bar> < pow2 (n + 1)"
  shows "expo x = n"
proof -
  have pos: "0 < \<bar>x\<bar>" using assms(1) pow2_pos [of n] by linarith
  have "of_int n \<le> log 2 \<bar>x\<bar>"
    using assms(1) pos by (simp add: le_log_iff pow2_powr)
  moreover have "log 2 \<bar>x\<bar> < of_int n + 1"
    using assms(2) pos by (simp add: log_less_iff pow2_powr add.commute)
  ultimately show ?thesis
    unfolding expo_def by (simp add: floor_eq_iff)
qed

lemma expo_bounds:
  assumes "x \<noteq> 0"
  shows "pow2 (expo x) \<le> \<bar>x\<bar>" and "\<bar>x\<bar> < pow2 (expo x + 1)"
proof -
  have pos: "0 < \<bar>x\<bar>" using assms by simp
  have "of_int (expo x) \<le> log 2 \<bar>x\<bar>" unfolding expo_def by simp
  then show "pow2 (expo x) \<le> \<bar>x\<bar>"
    using pos by (simp add: le_log_iff pow2_powr)
  have "log 2 \<bar>x\<bar> < of_int (expo x + 1)" unfolding expo_def by simp
  then show "\<bar>x\<bar> < pow2 (expo x + 1)"
    using pos by (simp add: log_less_iff pow2_powr)
qed

lemma roundEven_near:
  assumes "\<bar>k - of_int n\<bar> < 1 / 2"
  shows "roundEven k = n"
proof (cases "of_int n \<le> k")
  case True
  then have f: "\<lfloor>k\<rfloor> = n" using assms by (simp add: floor_eq_iff)
  show ?thesis unfolding roundEven_def Let_def f using assms True by simp
next
  case False
  then have f: "\<lfloor>k\<rfloor> = n - 1" using assms by (simp add: floor_eq_iff)
  show ?thesis unfolding roundEven_def Let_def f using assms False by simp
qed

lemma roundEven_err: "\<bar>of_int (roundEven k) - k\<bar> \<le> 1 / 2"
proof -
  have "of_int \<lfloor>k\<rfloor> \<le> k" "k < of_int \<lfloor>k\<rfloor> + 1" by linarith+
  then show ?thesis
    unfolding roundEven_def Let_def by (auto simp: abs_le_iff)
qed

lemma roundEven_nonneg: "0 \<le> k \<Longrightarrow> 0 \<le> roundEven k"
  unfolding roundEven_def Let_def by (auto simp: zero_le_floor) 

lemma rnd64_near:
  assumes "pow2 m \<le> \<bar>x\<bar>" "\<bar>x\<bar> < pow2 (m + 1)"
    and "\<bar>x / pow2 (m - 52) - of_int n\<bar> < 1 / 2"
  shows "rnd64 x = of_int n * pow2 (m - 52)"
proof -
  have nz: "x \<noteq> 0" using less_le_trans [OF pow2_pos assms(1)] by auto
  show ?thesis
    unfolding rnd64_def Let_def expo_eq [OF assms(1,2)] roundEven_near [OF assms(3)]
    using nz by simp
qed

lemma rnd64_err:
  assumes "x \<noteq> 0"
  shows "\<bar>rnd64 x - x\<bar> \<le> \<bar>x\<bar> / 2 ^ 53"
proof -
  define u where "u = pow2 (expo x - 52)"
  have u: "0 < u" by (simp add: u_def)
  have "pow2 (expo x) = u * 2 ^ 52"
    using pow2_add [of "expo x - 52" 52] by (simp add: u_def pow2_def)
  with expo_bounds(1) [OF assms] have ux: "u * 2 ^ 52 \<le> \<bar>x\<bar>" by simp
  have "rnd64 x - x = (of_int (roundEven (x / u)) - x / u) * u"
    using assms u by (simp add: rnd64_def Let_def u_def [symmetric] algebra_simps)
  then have "\<bar>rnd64 x - x\<bar> = \<bar>of_int (roundEven (x / u)) - x / u\<bar> * u"
    using u by (simp add: abs_mult)
  also have "\<dots> \<le> (1 / 2) * u"
    by (rule mult_right_mono [OF roundEven_err]) (use u in simp)
  also have "\<dots> \<le> \<bar>x\<bar> / 2 ^ 53" using ux by simp
  finally show ?thesis .
qed

lemma rnd64_nonneg: "0 \<le> x \<Longrightarrow> 0 \<le> rnd64 x"
  unfolding rnd64_def Let_def
  by (auto intro!: mult_nonneg_nonneg roundEven_nonneg divide_nonneg_pos simp: less_imp_le)


lemma pow2_mono: "m \<le> n \<Longrightarrow> pow2 m \<le> pow2 n"
  by (simp add: pow2_powr)

lemma roundEven_int: "roundEven (of_int n) = n"
  by (rule roundEven_near) simp

lemma rnd64_err_ulp:
  assumes "pow2 m \<le> \<bar>x\<bar>" "\<bar>x\<bar> < pow2 (m + 1)"
  shows "\<bar>rnd64 x - x\<bar> \<le> pow2 (m - 52) / 2"
proof -
  define u where "u = pow2 (m - 52)"
  have u: "0 < u" by (simp add: u_def)
  have nz: "x \<noteq> 0" using less_le_trans [OF pow2_pos assms(1)] by auto
  have "rnd64 x - x = (of_int (roundEven (x / u)) - x / u) * u"
    using nz u by (simp add: rnd64_def Let_def expo_eq [OF assms] u_def [symmetric] algebra_simps)
  then have "\<bar>rnd64 x - x\<bar> = \<bar>of_int (roundEven (x / u)) - x / u\<bar> * u"
    using u by (simp add: abs_mult)
  also have "\<dots> \<le> (1 / 2) * u"
    by (rule mult_right_mono [OF roundEven_err]) (use u in simp)
  finally show ?thesis by (simp add: u_def)
qed

lemma d08_val: "d08 = 3602879701896397 / 4503599627370496"
  unfolding d08_def
  using rnd64_near [of "- 1" "8 / 10" 7205759403792794]
  by (simp add: pow2_def)

lemma d085_val: "rnd64 (17 / 20) = 7656119366529843 / 9007199254740992"
  using rnd64_near [of "- 1" "17 / 20" 7656119366529843]
  by (simp add: pow2_def)

lemma sub_val: "sub64 (rnd64 (17 / 20)) d08 = 450359962737049 / 9007199254740992"
  unfolding sub64_def d08_val d085_val
  using rnd64_near [of "- 5" "450359962737049 / 9007199254740992" 7205759403792784]
  by (simp add: pow2_def)

lemma exponent_val:
  "mul64 (sub64 (rnd64 (17 / 20)) d08) 10 = 1 / 2 - 3 / 2 ^ 52"
  unfolding mul64_def sub_val
  using rnd64_near [of "- 2" "450359962737049 / 9007199254740992 * 10" 9007199254740980]
  by (simp add: pow2_def)

lemma rnd64_int:
  assumes "\<bar>z\<bar> < 2 ^ 53"
  shows "rnd64 (of_int z) = of_int z"
proof (cases "z = 0")
  case True
  then show ?thesis by (simp add: rnd64_def)
next
  case False
  define m where "m = expo (of_int z)"
  have nz: "real_of_int z \<noteq> 0" using False by simp
  have b: "pow2 m \<le> \<bar>real_of_int z\<bar>" "\<bar>real_of_int z\<bar> < pow2 (m + 1)"
    using expo_bounds [OF nz] by (simp_all add: m_def)
  have one: "1 \<le> \<bar>real_of_int z\<bar>" using False by (simp flip: of_int_abs add: int_one_le_iff_zero_less) 
  have m0: "0 \<le> m"
  proof (rule ccontr)
    assume "\<not> 0 \<le> m"
    then have "pow2 (m + 1) \<le> pow2 0" by (intro pow2_mono) simp
    with b(2) one show False by (simp add: pow2_def)
  qed
  have m52: "m \<le> 52"
  proof (rule ccontr)
    assume "\<not> m \<le> 52"
    then have "pow2 53 \<le> pow2 m" by (intro pow2_mono) simp
    moreover have "\<bar>real_of_int z\<bar> < 2 ^ 53" using assms by (simp flip: of_int_abs)
    ultimately show False using b(1) by (simp add: pow2_def)
  qed
  define k where "k = nat (52 - m)"
  have u: "pow2 (m - 52) = 1 / 2 ^ k"
    using m52 by (auto simp: pow2_def k_def)
  have "real_of_int z / pow2 (m - 52) = of_int (z * 2 ^ k)" by (simp add: u)
  then have "roundEven (real_of_int z / pow2 (m - 52)) = z * 2 ^ k"
    by (simp only: roundEven_int)
  then show ?thesis
    using nz by (simp add: rnd64_def Let_def m_def [symmetric] u)
qed


lemma ln2_upper: "ln 2 < (7 / 10 :: real)"
proof -
  have "(1 + 7 / 40 + (7 / 40)\<^sup>2 / 2 :: real) \<le> exp (7 / 40)"
    by (rule exp_lower_Taylor_quadratic) simp
  then have "(1 + 7 / 40 + (7 / 40)\<^sup>2 / 2 :: real) ^ 4 \<le> exp (7 / 40) ^ 4"
    by (rule power_mono) simp
  also have "exp (7 / 40 :: real) ^ 4 = exp (7 / 10)"
    by (simp flip: exp_of_nat_mult)
  finally have "(2 :: real) < exp (7 / 10)"
    by (simp add: power2_eq_square power4_eq_xxxx)
  then have "exp (ln 2) < exp (7 / 10 :: real)" by simp
  then show ?thesis by (simp only: exp_less_cancel_iff)
qed

lemma ln2_lower: "(16 / 25 :: real) < ln 2"
proof -
  have "exp (2 / 25 :: real) \<le> 1 + 2 / 25 + (2 / 25)\<^sup>2"
    by (rule exp_bound) simp_all
  then have "exp (2 / 25 :: real) ^ 8 \<le> (1 + 2 / 25 + (2 / 25)\<^sup>2) ^ 8"
    by (rule power_mono) simp
  moreover have "exp (2 / 25 :: real) ^ 8 = exp (16 / 25)"
    by (simp flip: exp_of_nat_mult)
  ultimately have "exp (16 / 25 :: real) < 2"
    by (simp add: power2_eq_square eval_nat_numeral)
  then have "exp (16 / 25 :: real) < exp (ln 2)" by simp
  then show ?thesis by (simp only: exp_less_cancel_iff)
qed

lemma pow_near_two:
  defines "T \<equiv> 4 powr (1 / 2 - 3 / 2 ^ 52 :: real)"
  shows "2 - 84 / (10 * 2 ^ 52) < T" and "T < 2 - 76 / (10 * 2 ^ 52)"
proof -
  define d :: real where "d = 6 / 2 ^ 52 * ln 2"
  have ln4: "ln (4 :: real) = 2 * ln 2"
    using ln_realpow [of 2 2] by simp
  have "T = exp ((1 / 2 - 3 / 2 ^ 52) * ln 4)"
    by (simp add: T_def powr_def)
  also have "(1 / 2 - 3 / 2 ^ 52) * ln (4 :: real) = ln 2 - d"
    unfolding ln4 d_def by (simp add: algebra_simps)
  also have "exp (ln 2 - d) = 2 * exp (- d)"
    by (simp add: exp_diff exp_minus field_simps)
  finally have T: "T = 2 * exp (- d)" .
  have dl: "384 / (100 * 2 ^ 52) < d" and du: "d < 42 / (10 * 2 ^ 52)"
    using ln2_lower ln2_upper by (simp_all add: d_def)
  have "1 - d \<le> exp (- d)"
    using exp_ge_add_one_self [of "- d"] by simp
  with du show "2 - 84 / (10 * 2 ^ 52) < T"
    unfolding T by simp
  have "1 + d \<le> exp d" by (rule exp_ge_add_one_self)
  moreover have dpos: "0 < 1 + d" using dl by (simp add: add_pos_pos less_imp_le order.strict_trans [rotated])
  ultimately have "exp (- d) \<le> 1 / (1 + d)"
    by (simp add: exp_minus inverse_eq_divide frac_le)
  moreover have "1 / (1 + d) < 1 - 38 / (10 * 2 ^ 52)"
  proof -
    have "1 < (1 + d) * (1 - 38 / (10 * 2 ^ 52))"
      using dl by (simp add: algebra_simps)
    then show ?thesis
      using dpos by (simp add: field_simps)
  qed
  ultimately show "T < 2 - 76 / (10 * 2 ^ 52)"
    unfolding T by simp
qed


lemma accurate_pow64: "accurate pow64"
  unfolding accurate_def pow64_def
proof
  fix y :: real
  have "\<bar>rnd64 (4 powr y) - 4 powr y\<bar> \<le> \<bar>4 powr y\<bar> / 2 ^ 53"
    by (rule rnd64_err) simp
  also have "\<dots> \<le> 4 powr y / 2 ^ 52"
    by (simp add: field_simps)
  finally show "\<bar>rnd64 (4 powr y) - 4 powr y\<bar> \<le> 4 powr y / 2 ^ 52" .
qed

lemma accurate_bounds:
  assumes "accurate pw"
  shows "4 powr y * (1 - 1 / 2 ^ 52) \<le> pw 4 y" and "pw 4 y \<le> 4 powr y * (1 + 1 / 2 ^ 52)"
proof -
  have "\<bar>pw 4 y - 4 powr y\<bar> \<le> 4 powr y / 2 ^ 52"
    using assms by (simp add: accurate_def)
  then have "pw 4 y - 4 powr y \<le> 4 powr y / 2 ^ 52" "4 powr y - pw 4 y \<le> 4 powr y / 2 ^ 52"
    by linarith+
  then show "4 powr y * (1 - 1 / 2 ^ 52) \<le> pw 4 y" "pw 4 y \<le> 4 powr y * (1 + 1 / 2 ^ 52)"
    by (simp_all add: algebra_simps)
qed

lemma accurate_nonneg: "accurate pw \<Longrightarrow> 0 \<le> pw 4 y"
proof -
  assume "accurate pw"
  from accurate_bounds(1) [OF this, of y]
  show ?thesis
    by (rule order_trans [rotated]) simp
qed

lemma d085_gt: "d08 < rnd64 (17 / 20)"
  by (simp add: d08_val d085_val)

lemma score_085:
  assumes "accurate pw"
  shows "addedScore pw 10 (rnd64 (17 / 20)) = 199"
proof -
  define T :: real where "T = 4 powr (1 / 2 - 3 / 2 ^ 52)"
  define P where "P = pw 4 (1 / 2 - 3 / 2 ^ 52)"
  have T: "2 - 84 / (10 * 2 ^ 52) < T" "T < 2 - 76 / (10 * 2 ^ 52)"
    using pow_near_two by (simp_all add: T_def)
  have P: "T * (1 - 1 / 2 ^ 52) \<le> P" "P \<le> T * (1 + 1 / 2 ^ 52)"
    using accurate_bounds [OF assms, of "1 / 2 - 3 / 2 ^ 52"] by (simp_all add: T_def P_def)
  have "(2 - 84 / (10 * 2 ^ 52)) * (1 - 1 / 2 ^ 52) \<le> T * (1 - 1 / 2 ^ 52)"
    by (rule mult_right_mono) (use T in simp_all)
  with P(1) have Pl: "2 - 11 / 2 ^ 52 \<le> P" by simp
  have "T * (1 + 1 / 2 ^ 52) \<le> (2 - 76 / (10 * 2 ^ 52)) * (1 + 1 / 2 ^ 52)"
    by (rule mult_right_mono) (use T in simp_all)
  with P(2) have Pu: "P \<le> 2 - 5 / 2 ^ 52" by simp
  have m: "multiplierOf pw (rnd64 (17 / 20)) = P"
    by (simp add: multiplierOf_def d085_gt exponent_val P_def)
  have c: "mul64 (of_int 10) 10 = 100"
    unfolding mul64_def using rnd64_int [of 100] by simp
  have r: "pow2 7 \<le> \<bar>100 * P\<bar>" "\<bar>100 * P\<bar> < pow2 (7 + 1)"
    using Pl Pu by (simp_all add: pow2_def)
  from rnd64_err_ulp [OF r] have "\<bar>rnd64 (100 * P) - 100 * P\<bar> \<le> 1 / 2 ^ 46"
    by (simp add: pow2_def)
  then have e: "rnd64 (100 * P) - 100 * P \<le> 1 / 2 ^ 46" "100 * P - rnd64 (100 * P) \<le> 1 / 2 ^ 46"
    by linarith+
  have "199 + 1 / 2 ^ 46 \<le> 100 * P" "100 * P < 200 - 1 / 2 ^ 46"
    using Pl Pu by simp_all
  with e have "199 \<le> rnd64 (100 * P)" "rnd64 (100 * P) < 200"
    by linarith+
  then have "\<lfloor>rnd64 (100 * P)\<rfloor> = 199"
    by (simp add: floor_eq_iff)
  then show ?thesis
    unfolding addedScore_def m c by (simp add: mul64_def)
qed

lemma score_low:
  assumes "0 \<le> c" "c \<le> 3072" "p \<le> d08"
  shows "addedScore pw c p = 10 * c"
proof -
  have "rnd64 (of_int (c * 10)) = of_int (c * 10)"
    by (rule rnd64_int) (use assms in simp)
  moreover have "\<lfloor>real_of_int (c * 10)\<rfloor> = c * 10"
    by (rule floor_of_int)
  ultimately show ?thesis
    using assms(3) by (simp add: addedScore_def multiplierOf_def mul64_def)
qed

lemma half_le_d08: "1 / 2 \<le> d08"
  by (simp add: d08_val)

lemma score_nonneg:
  assumes "accurate pw" "0 \<le> c"
  shows "0 \<le> addedScore pw c p"
proof -
  have a: "0 \<le> multiplierOf pw p"
    using accurate_nonneg [OF assms(1)] by (simp add: multiplierOf_def)
  have b: "0 \<le> rnd64 (of_int c * 10)"
    by (rule rnd64_nonneg) (use assms(2) in simp)
  have "0 \<le> rnd64 (rnd64 (of_int c * 10) * multiplierOf pw p)"
    by (intro rnd64_nonneg mult_nonneg_nonneg a b)
  then show ?thesis
    by (simp add: addedScore_def mul64_def)
qed

lemma specDelta_085: "specDelta 10 (17 / 20) = 200"
proof -
  have "(4 :: real) powr (1 / 2) = 2"
    using powr_half_sqrt [of "4 :: real"] real_sqrt_four by simp
  then show ?thesis
    by (simp add: specDelta_def)
qed


lemma rnd64_rel: "\<bar>rnd64 x - x\<bar> \<le> \<bar>x\<bar> / 2 ^ 53"
proof (cases "x = 0")
  case True
  then show ?thesis by (simp add: rnd64_def)
next
  case False
  then show ?thesis by (rule rnd64_err)
qed

lemma floor_close:
  fixes x y :: real
  assumes "\<bar>x - y\<bar> < 1"
  shows "\<bar>\<lfloor>x\<rfloor> - \<lfloor>y\<rfloor>\<bar> \<le> 1"
proof -
  have "of_int \<lfloor>x\<rfloor> \<le> x" "x < of_int \<lfloor>x\<rfloor> + 1" "of_int \<lfloor>y\<rfloor> \<le> y" "y < of_int \<lfloor>y\<rfloor> + 1"
    by linarith+
  with assms have "real_of_int \<lfloor>x\<rfloor> - of_int \<lfloor>y\<rfloor> < 2" "real_of_int \<lfloor>y\<rfloor> - of_int \<lfloor>x\<rfloor> < 2"
    by linarith+
  then have "\<lfloor>x\<rfloor> - \<lfloor>y\<rfloor> < 2" "\<lfloor>y\<rfloor> - \<lfloor>x\<rfloor> < 2"
    by linarith+
  then show ?thesis by linarith
qed

lemma ln4_bound: "ln (4 :: real) < 7 / 5" and ln4_pos: "0 < ln (4 :: real)"
proof -
  have "ln (4 :: real) = 2 * ln 2" using ln_realpow [of 2 2] by simp
  then show "ln (4 :: real) < 7 / 5" using ln2_upper by simp
  show "0 < ln (4 :: real)" by simp
qed

lemma powr4_small:
  fixes z :: real
  assumes "\<bar>z\<bar> \<le> 1 / 2 ^ 49"
  shows "\<bar>4 powr z - 1\<bar> \<le> 1 / 2 ^ 47"
proof -
  define w where "w = z * ln 4"
  have "\<bar>w\<bar> = \<bar>z\<bar> * ln 4" using ln4_pos by (simp add: w_def abs_mult)
  also have "\<dots> \<le> (1 / 2 ^ 49) * (7 / 5)"
    by (rule mult_mono [OF assms]) (use ln4_bound ln4_pos in simp_all)
  finally have "\<bar>w\<bar> \<le> 7 / (5 * 2 ^ 49)" by simp
  then have w: "w \<le> 7 / (5 * 2 ^ 49)" "- (7 / (5 * 2 ^ 49)) \<le> w" by linarith+
  have e: "4 powr z = exp w" by (simp add: powr_def w_def mult.commute)
  have lo: "1 + w \<le> exp w" by (rule exp_ge_add_one_self)
  have "1 - w \<le> exp (- w)" using exp_ge_add_one_self [of "- w"] by simp
  moreover have pos: "0 < 1 - w" using w(1) by simp
  ultimately have "exp w \<le> 1 / (1 - w)"
    by (simp add: exp_minus field_simps)
  moreover have "1 / (1 - w) \<le> 1 + 1 / 2 ^ 47"
  proof -
    have "1 \<le> (1 + 1 / 2 ^ 47) * (1 - w)" using w(1) by (simp add: algebra_simps)
    then show ?thesis using pos by (simp add: field_simps)
  qed
  ultimately have hi: "exp w - 1 \<le> 1 / 2 ^ 47" by linarith
  have "- (1 / 2 ^ 47) \<le> w" using w(2) by simp
  with lo have "- (1 / 2 ^ 47) \<le> exp w - 1" by linarith
  with hi show ?thesis unfolding e by (intro abs_leI) linarith+
qed


lemma d08_gap: "d08 - 8 / 10 = 1 / (5 * 2 ^ 52)"
  by (simp add: d08_val)

lemma exponent_close:
  assumes "d08 < p" "p \<le> 1"
  shows "\<bar>mul64 (sub64 p d08) 10 - (p - 8 / 10) * 10\<bar> \<le> 1 / 2 ^ 49"
proof -
  define x where "x = p - d08"
  define a where "a = rnd64 x"
  define b where "b = rnd64 (a * 10)"
  have x: "0 < x" "x \<le> 1 / 5"
    using assms d08_gap by (simp_all add: x_def)
  have "\<bar>a - x\<bar> \<le> \<bar>x\<bar> / 2 ^ 53" unfolding a_def by (rule rnd64_rel)
  also have "\<dots> \<le> 1 / 5 / 2 ^ 53" using x by (simp add: field_simps)
  finally have ax: "\<bar>a - x\<bar> \<le> 1 / 5 / 2 ^ 53" .
  have n1: "(1 :: real) / 5 / 2 ^ 53 \<le> 1 / 20" by simp
  have a: "\<bar>a\<bar> \<le> 1 / 4" using ax x n1 by linarith
  have "\<bar>b - a * 10\<bar> \<le> \<bar>a * 10\<bar> / 2 ^ 53" unfolding b_def by (rule rnd64_rel)
  also have "\<dots> \<le> 5 / 2 / 2 ^ 53" using a by (simp add: abs_mult field_simps)
  finally have ba: "\<bar>b - a * 10\<bar> \<le> 5 / 2 / 2 ^ 53" .
  have t: "(p - 8 / 10) * 10 = x * 10 + 4 / 2 ^ 53"
    using d08_gap by (simp add: x_def algebra_simps)
  have n2: "(5 :: real) / 2 / 2 ^ 53 + 10 * (1 / 5 / 2 ^ 53) + 4 / 2 ^ 53 \<le> 1 / 2 ^ 49" by simp
  have "\<bar>b - (x * 10 + 4 / 2 ^ 53)\<bar> \<le> 1 / 2 ^ 49"
    using ax ba n2 by linarith
  then show ?thesis
    unfolding t by (simp add: mul64_def sub64_def b_def a_def x_def)
qed


lemma d08_gt: "8 / 10 < d08"
  by (simp add: d08_val)

lemma abs_scale:
  fixes a k :: real
  assumes "0 \<le> a"
  shows "\<bar>a * k - a\<bar> = a * \<bar>k - 1\<bar>"
proof -
  have "a * k - a = a * (k - 1)" by (simp add: algebra_simps)
  then show ?thesis using assms by (simp only: abs_mult abs_of_nonneg)
qed

lemma multiplier_close:
  assumes "accurate pw" "d08 < p" "p \<le> 1"
  shows "\<bar>multiplierOf pw p - 4 powr ((p - 8 / 10) * 10)\<bar> \<le> 1 / 2 ^ 42"
    and "0 \<le> multiplierOf pw p" and "multiplierOf pw p \<le> 18"
proof -
  define t where "t = (p - 8 / 10) * 10"
  define b where "b = mul64 (sub64 p d08) 10"
  define A where "A = 4 powr t"
  define B where "B = 4 powr b"
  define P where "P = pw 4 b"
  have m: "multiplierOf pw p = P"
    using assms(2) by (simp add: multiplierOf_def P_def b_def)
  have t: "0 \<le> t" "t \<le> 2"
    using assms(2,3) d08_gt by (simp_all add: t_def)
  have A1: "1 \<le> A" unfolding A_def by (rule ge_one_powr_ge_zero) (use t in simp_all)
  have "A \<le> 4 powr 2" unfolding A_def by (rule powr_mono) (use t in simp_all)
  then have A16: "A \<le> 16" by simp
  have bt: "\<bar>b - t\<bar> \<le> 1 / 2 ^ 49"
    unfolding b_def t_def by (rule exponent_close [OF assms(2,3)])
  have BA: "B = A * 4 powr (b - t)"
    by (simp add: A_def B_def flip: powr_add)
  have "\<bar>B - A\<bar> = A * \<bar>4 powr (b - t) - 1\<bar>"
    unfolding BA by (rule abs_scale) (use A1 in simp)
  also have "\<dots> \<le> 16 * (1 / 2 ^ 47)"
    by (rule mult_mono [OF A16 powr4_small [OF bt]]) simp_all
  finally have dBA: "\<bar>B - A\<bar> \<le> 1 / 2 ^ 43" by simp
  have n1: "(1 :: real) / 2 ^ 43 \<le> 1" by simp
  have B: "0 \<le> B" "B \<le> 17"
    using dBA A16 n1 by (simp add: B_def, linarith)
  have "\<bar>P - B\<bar> \<le> B / 2 ^ 52"
    using assms(1) by (simp add: accurate_def P_def B_def)
  also have "\<dots> \<le> 17 / 2 ^ 52" using B(2) by (simp add: field_simps)
  finally have dPB: "\<bar>P - B\<bar> \<le> 17 / 2 ^ 52" .
  have n2: "(1 :: real) / 2 ^ 43 + 17 / 2 ^ 52 \<le> 1 / 2 ^ 42" by simp
  have "\<bar>P - A\<bar> \<le> 1 / 2 ^ 42" using dBA dPB n2 by linarith
  then show "\<bar>multiplierOf pw p - 4 powr ((p - 8 / 10) * 10)\<bar> \<le> 1 / 2 ^ 42"
    by (simp add: m A_def t_def)
  show "0 \<le> multiplierOf pw p"
    unfolding m P_def by (rule accurate_nonneg [OF assms(1)])
  have n3: "(17 :: real) / 2 ^ 52 \<le> 1" by simp
  show "multiplierOf pw p \<le> 18"
    unfolding m using dPB B(2) n3 by linarith
qed

lemma score_close:
  assumes "accurate pw" "0 \<le> c" "c \<le> 3072" "p \<le> 1"
  shows "\<bar>addedScore pw c p - specDelta c p\<bar> \<le> 1"
proof (cases "d08 < p")
  case True
  define A where "A = 4 powr ((p - 8 / 10) * 10)"
  define P where "P = multiplierOf pw p"
  define C where "C = real_of_int c * 10"
  define F where "F = rnd64 (C * P)"
  have C: "0 \<le> C" "C \<le> 30720" using assms(2,3) by (simp_all add: C_def)
  have PA: "\<bar>P - A\<bar> \<le> 1 / 2 ^ 42" and P: "0 \<le> P" "P \<le> 18"
    using multiplier_close [OF assms(1) True assms(4)] by (simp_all add: P_def A_def)
  have "rnd64 (of_int (c * 10)) = of_int (c * 10)"
    by (rule rnd64_int) (use assms(2,3) in simp)
  then have code: "addedScore pw c p = \<lfloor>F\<rfloor>"
    by (simp add: addedScore_def mul64_def F_def C_def P_def)
  have spec: "specDelta c p = \<lfloor>C * A\<rfloor>"
    using True d08_gt by (simp add: specDelta_def C_def A_def)
  have "\<bar>C * P - C * A\<bar> = C * \<bar>P - A\<bar>"
    using C(1) by (simp add: abs_mult flip: right_diff_distrib)
  also have "\<dots> \<le> 30720 * (1 / 2 ^ 42)"
    by (rule mult_mono [OF C(2) PA]) (use C in simp_all)
  finally have d1: "\<bar>C * P - C * A\<bar> \<le> 30720 / 2 ^ 42" by simp
  have "C * P \<le> 30720 * 18"
    by (rule mult_mono [OF C(2) P(2)]) (use C P in simp_all)
  moreover have "0 \<le> C * P" using C(1) P(1) by simp
  ultimately have CP: "\<bar>C * P\<bar> \<le> 552960" by simp
  have "\<bar>F - C * P\<bar> \<le> \<bar>C * P\<bar> / 2 ^ 53" unfolding F_def by (rule rnd64_rel)
  also have "\<dots> \<le> 552960 / 2 ^ 53" using CP by (simp add: field_simps)
  finally have d2: "\<bar>F - C * P\<bar> \<le> 552960 / 2 ^ 53" .
  have n: "(30720 :: real) / 2 ^ 42 + 552960 / 2 ^ 53 < 1" by simp
  have "\<bar>F - C * A\<bar> < 1" using d1 d2 n by linarith
  then show ?thesis unfolding code spec by (rule floor_close)
next
  case False
  then have low: "p \<le> d08" by simp
  have code: "addedScore pw c p = 10 * c"
    by (rule score_low [OF assms(2,3) low])
  show ?thesis
  proof (cases "p \<le> 8 / 10")
    case True
    have "\<lfloor>real_of_int (c * 10)\<rfloor> = c * 10" by (rule floor_of_int)
    then have "specDelta c p = 10 * c"
      using True by (simp add: specDelta_def)
    with code show ?thesis by simp
  next
    case gap: False
    define t where "t = (p - 8 / 10) * 10"
    define C where "C = real_of_int c * 10"
    have C: "0 \<le> C" "C \<le> 30720" using assms(2,3) by (simp_all add: C_def)
    have "0 \<le> t" "t \<le> 1 / 2 ^ 49"
      using gap low d08_gap by (simp_all add: t_def)
    then have "\<bar>t\<bar> \<le> 1 / 2 ^ 49" by simp
    from powr4_small [OF this] have s: "\<bar>4 powr t - 1\<bar> \<le> 1 / 2 ^ 47" .
    have "\<bar>C * 4 powr t - C\<bar> = C * \<bar>4 powr t - 1\<bar>"
      by (rule abs_scale [OF C(1)])
    also have "\<dots> \<le> 30720 * (1 / 2 ^ 47)"
      by (rule mult_mono [OF C(2) s]) (use C in simp_all)
    also have "\<dots> < 1" by simp
    finally have "\<bar>C - C * 4 powr t\<bar> < 1" by (simp add: abs_minus_commute)
    then have "\<bar>\<lfloor>C\<rfloor> - \<lfloor>C * 4 powr t\<rfloor>\<bar> \<le> 1" by (rule floor_close)
    moreover have "\<lfloor>C\<rfloor> = 10 * c"
      using floor_of_int [of "10 * c", where ?'a = real] by (simp add: C_def mult.commute)
    moreover have "specDelta c p = \<lfloor>C * 4 powr t\<rfloor>"
      using gap by (simp add: specDelta_def C_def t_def)
    ultimately show ?thesis using code by simp
  qed
qed


lemma rnd64_eval:
  assumes "pow2 m \<le> \<bar>x\<bar>" "\<bar>x\<bar> < pow2 (m + 1)"
    and "\<bar>x / pow2 (m - 52) - of_int n\<bar> < 1 / 2"
    and "c = of_int n * pow2 (m - 52)"
  shows "rnd64 x = c"
  using rnd64_near [OF assms(1,2,3)] assms(4) by simp


lemma rnd64_zero [simp]: "rnd64 0 = 0"
  by (simp add: rnd64_def)

lemma rnd64_bounds:
  assumes "0 \<le> x"
  shows "x * (1 - 1 / 2 ^ 53) \<le> rnd64 x" and "rnd64 x \<le> x * (1 + 1 / 2 ^ 53)"
proof -
  have "\<bar>rnd64 x - x\<bar> \<le> x / 2 ^ 53"
    using rnd64_rel [of x] assms by simp
  then have "rnd64 x - x \<le> x / 2 ^ 53" "x - rnd64 x \<le> x / 2 ^ 53"
    by linarith+
  then show "x * (1 - 1 / 2 ^ 53) \<le> rnd64 x" "rnd64 x \<le> x * (1 + 1 / 2 ^ 53)"
    by (simp_all add: algebra_simps)
qed

lemma rnd64_bounds_neg:
  assumes "x \<le> 0"
  shows "x * (1 + 1 / 2 ^ 53) \<le> rnd64 x" and "rnd64 x \<le> x * (1 - 1 / 2 ^ 53)"
proof -
  have "\<bar>rnd64 x - x\<bar> \<le> - x / 2 ^ 53"
    using rnd64_rel [of x] assms by simp
  then have "rnd64 x - x \<le> - x / 2 ^ 53" "x - rnd64 x \<le> - x / 2 ^ 53"
    by linarith+
  then show "x * (1 + 1 / 2 ^ 53) \<le> rnd64 x" "rnd64 x \<le> x * (1 - 1 / 2 ^ 53)"
    by (simp_all add: algebra_simps)
qed

lemma rnd64_pos: "0 < x \<Longrightarrow> 0 < rnd64 x"
proof -
  assume x: "0 < x"
  then have "0 < x * (1 - 1 / 2 ^ 53)" by simp
  with rnd64_bounds(1) [of x] x show ?thesis by linarith
qed


text \<open>The literals of the source.\<close>

lemma PLAYER_SPEED_val: "PLAYER_SPEED = 5404319552844595 / 18014398509481984"
  unfolding PLAYER_SPEED_def
  by (rule rnd64_eval [of "- 2" _ 5404319552844595]) (simp_all add: pow2_def)

lemma ENEMY_SPEED_val: "ENEMY_SPEED = 3602879701896397 / 18014398509481984"
  unfolding ENEMY_SPEED_def
  by (rule rnd64_eval [of "- 3" _ 7205759403792794]) (simp_all add: pow2_def)

lemma BOSS_SPEED_val: "BOSS_SPEED = 5404319552844595 / 36028797018963968"
  unfolding BOSS_SPEED_def
  by (rule rnd64_eval [of "- 3" _ 5404319552844595]) (simp_all add: pow2_def)

lemma WIN_THRESHOLD_val: "WIN_THRESHOLD = 3602879701896397 / 4503599627370496"
  using d08_val by (simp add: WIN_THRESHOLD_def d08_def)


lemma spawn_chance_val: "rnd64 (1 / 200) = 5764607523034235 / 1152921504606846976"
  by (rule rnd64_eval [of "- 8" _ 5764607523034235]) (simp_all add: pow2_def)

subsection \<open>The score of a resolution\<close>

text \<open>
  C2, as stated, fails at its second example. The owned fraction 0.85 is the double nearest
  to 17/20; the subtraction of the literal \<open>0.8\<close> and the multiplication by 10 give the
  exponent \<open>1/2 - 3 / 2 ^ 52\<close>, not \<open>1/2\<close>, the power is below 2 and the delta for ten cells is
  199. The formula of the specification gives 200.
\<close>

theorem addedScore_at_085_counterexample:
  "addedScore pow64 10 (rnd64 (17 / 20)) = 199
   \<and> specDelta 10 (17 / 20) = 200
   \<and> mul64 (sub64 (rnd64 (17 / 20)) d08) 10 = 1 / 2 - 3 / 2 ^ 52"
  using score_085 [OF accurate_pow64] specDelta_085 exponent_val by simp

text \<open>
  C2, amended. For a count of cells between 0 and the 3072 of the grid and an owned fraction
  of at most 1, with \<open>Math.pow\<close> accurate to one unit in the last place: when the fraction is
  at most the literal \<open>0.8\<close> the delta is exactly ten times the count; in every case the delta
  is within one point of the floor of \<open>capturedCount * 10 * multiplier\<close> that the formula
  gives over the reals, and it is never negative. Ten cells at fraction 0.5 yield 100, and
  ten cells at fraction 0.85 yield 199.
\<close>

theorem addedScore_within_one_of_formula:
  assumes "accurate pw" and "0 \<le> c" and "c \<le> 3072" and "p \<le> 1"
  shows "(p \<le> d08 \<longrightarrow> addedScore pw c p = 10 * c)
         \<and> \<bar>addedScore pw c p - specDelta c p\<bar> \<le> 1
         \<and> 0 \<le> addedScore pw c p
         \<and> addedScore pw 10 (1 / 2) = 100
         \<and> addedScore pw 10 (rnd64 (17 / 20)) = 199"
proof -
  have "addedScore pw 10 (1 / 2) = 100"
    using score_low [of 10 "1 / 2" pw] half_le_d08 by simp
  then show ?thesis
    using score_low [OF assms(2,3)] score_close [OF assms] score_nonneg [OF assms(1,2)]
      score_085 [OF assms(1)]
    by simp
qed

theorem addedScore_within_one_of_formula_witness:
  "accurate pow64 \<and> rnd64 (17 / 20) \<le> 1 \<and> 1 / 2 \<le> d08
   \<and> addedScore pow64 7 (1 / 2) = 70
   \<and> \<bar>addedScore pow64 10 (rnd64 (17 / 20)) - specDelta 10 (rnd64 (17 / 20))\<bar> \<le> 1
   \<and> 0 \<le> addedScore pow64 10 (rnd64 (17 / 20))
   \<and> addedScore pow64 10 (1 / 2) = 100
   \<and> addedScore pow64 10 (rnd64 (17 / 20)) = 199"
proof -
  have le: "rnd64 (17 / 20) \<le> 1" by (simp add: d085_val)
  have half: "(1 / 2 :: real) \<le> 1" by simp
  from addedScore_within_one_of_formula [OF accurate_pow64 _ _ le, of 10]
    addedScore_within_one_of_formula [OF accurate_pow64 _ _ half, of 7]
  show ?thesis
    using accurate_pow64 le half_le_d08 by simp
qed


subsection \<open>Cells and scans\<close>

lemma wfGrid_setCell [simp]: "wfGrid g \<Longrightarrow> wfGrid (setCell g x y v)"
proof (cases "nat y < length g")
  case True
  then have "length ((g ! nat y)[nat x := v]) = nat GRID_WIDTH" if "wfGrid g"
    using that by (simp add: wfGrid_def)
  moreover have "set (g[nat y := (g ! nat y)[nat x := v]]) \<subseteq> insert ((g ! nat y)[nat x := v]) (set g)"
    by (rule set_update_subset_insert)
  ultimately show "wfGrid g \<Longrightarrow> wfGrid (setCell g x y v)"
    unfolding wfGrid_def setCell_def by auto
next
  case False
  then show "wfGrid g \<Longrightarrow> wfGrid (setCell g x y v)"
    by (simp add: setCell_def list_update_beyond)
qed

lemma getCell_setCell:
  assumes "wfGrid g" "inGrid x y" "inGrid a b"
  shows "getCell (setCell g x y v) a b = (if a = x \<and> b = y then v else getCell g a b)"
proof -
  have ly: "nat y < length g" and lb: "nat b < length g"
    using assms by (auto simp: wfGrid_def inGrid_def)
  have lx: "nat x < length (g ! nat y)"
    using assms ly by (auto simp: wfGrid_def inGrid_def)
  have eqs: "(nat b = nat y) = (b = y)" "(nat a = nat x) = (a = x)"
    using assms by (auto simp: inGrid_def)
  show ?thesis
    unfolding getCell_def setCell_def using ly lb lx eqs
    by (auto simp: nth_list_update)
qed

lemma fold_row_rule:
  assumes step: "\<And>x D s. x \<in> set xs \<Longrightarrow> (x, y) \<notin> D \<Longrightarrow> I D s \<Longrightarrow> I (insert (x, y) D) (body x y s)"
    and "distinct xs" and "\<forall>x \<in> set xs. (x, y) \<notin> D" and "I D s"
  shows "I (D \<union> (\<lambda>x. (x, y)) ` set xs) (fold (\<lambda>x. body x y) xs s)"
  using assms
proof (induction xs arbitrary: D s)
  case Nil
  then show ?case by simp
next
  case (Cons x xs)
  have "I (insert (x, y) D) (body x y s)"
    using Cons.prems by auto
  moreover have "\<forall>x' \<in> set xs. (x', y) \<notin> insert (x, y) D"
    using Cons.prems by auto
  ultimately have "I (insert (x, y) D \<union> (\<lambda>x. (x, y)) ` set xs)
      (fold (\<lambda>x. body x y) xs (body x y s))"
    using Cons.IH [of "insert (x, y) D" "body x y s"] Cons.prems by auto
  then show ?case by simp
qed

lemma fold_rows_rule:
  assumes step: "\<And>x y D s. x \<in> set xs \<Longrightarrow> y \<in> set ys \<Longrightarrow> (x, y) \<notin> D \<Longrightarrow> I D s
                  \<Longrightarrow> I (insert (x, y) D) (body x y s)"
    and "distinct xs" and "distinct ys" and "\<forall>y \<in> set ys. \<forall>x \<in> set xs. (x, y) \<notin> D" and "I D s"
  shows "I (D \<union> set xs \<times> set ys) (fold (\<lambda>y. fold (\<lambda>x. body x y) xs) ys s)"
  using assms
proof (induction ys arbitrary: D s)
  case Nil
  then show ?case by simp
next
  case (Cons y ys)
  let ?D = "D \<union> (\<lambda>x. (x, y)) ` set xs"
  have row: "I ?D (fold (\<lambda>x. body x y) xs s)"
    by (rule fold_row_rule [where I = I]) (use Cons.prems in auto)
  have fresh: "\<forall>y' \<in> set ys. \<forall>x \<in> set xs. (x, y') \<notin> ?D"
    using Cons.prems by auto
  have "I (?D \<union> set xs \<times> set ys) (fold (\<lambda>y. fold (\<lambda>x. body x y) xs) ys (fold (\<lambda>x. body x y) xs s))"
    by (rule Cons.IH [OF _ _ _ fresh row]) (use Cons.prems in auto)
  moreover have "?D \<union> set xs \<times> set ys = D \<union> set xs \<times> set (y # ys)"
    by auto
  ultimately show ?case by simp
qed

lemma scanCells_rule:
  assumes init: "I {} s"
    and step: "\<And>x y D s. inGrid x y \<Longrightarrow> (x, y) \<notin> D \<Longrightarrow> D \<subseteq> cells \<Longrightarrow> I D s
                 \<Longrightarrow> I (insert (x, y) D) (body x y s)"
  shows "I cells (scanCells body s)"
proof -
  let ?xs = "[0..GRID_WIDTH - 1]" and ?ys = "[0..GRID_HEIGHT - 1]"
  let ?J = "\<lambda>D s. D \<subseteq> cells \<and> I D s"
  have prod: "set ?xs \<times> set ?ys = cells"
    by (auto simp: cells_def inGrid_def)
  have "?J ({} \<union> set ?xs \<times> set ?ys) (fold (\<lambda>y. fold (\<lambda>x. body x y) ?xs) ?ys s)"
  proof (rule fold_rows_rule [where I = ?J])
    fix x y D s
    assume "x \<in> set ?xs" "y \<in> set ?ys" "(x, y) \<notin> D" "?J D s"
    moreover from this have "inGrid x y" by (auto simp: inGrid_def)
    ultimately show "?J (insert (x, y) D) (body x y s)"
      using step by (auto simp: cells_def)
  qed (use init in auto)
  then have "I (set ?xs \<times> set ?ys) (fold (\<lambda>y. fold (\<lambda>x. body x y) ?xs) ?ys s)"
    by simp
  then show ?thesis unfolding prod scanCells_def .
qed


lemma scan_pointwise:
  assumes wf: "wfGrid g"
    and body: "\<And>x y h. wfGrid h \<Longrightarrow> inGrid x y \<Longrightarrow>
                 body x y h = setCell h x y (f x y (getCell h x y))"
  shows "wfGrid (scanCells body g)"
    and "inGrid a b \<Longrightarrow> getCell (scanCells body g) a b = f a b (getCell g a b)"
proof -
  let ?I = "\<lambda>D h. wfGrid h \<and> (\<forall>a b. inGrid a b \<longrightarrow>
              getCell h a b = (if (a, b) \<in> D then f a b (getCell g a b) else getCell g a b))"
  have "?I cells (scanCells body g)"
  proof (rule scanCells_rule [where I = ?I])
    show "?I {} g" using wf by simp
  next
    fix x y D h
    assume xy: "inGrid x y" "(x, y) \<notin> D" and I: "?I D h"
    then have eq: "body x y h = setCell h x y (f x y (getCell g x y))"
      using body [of h x y] by simp
    show "?I (insert (x, y) D) (body x y h)"
      unfolding eq using I xy by (auto simp: getCell_setCell)
  qed
  then show "wfGrid (scanCells body g)"
    and "inGrid a b \<Longrightarrow> getCell (scanCells body g) a b = f a b (getCell g a b)"
    by (auto simp: cells_def)
qed

lemma setCell_same: "wfGrid g \<Longrightarrow> inGrid x y \<Longrightarrow> setCell g x y (getCell g x y) = g"
  by (simp add: setCell_def getCell_def)

lemma clearTrail_cells:
  assumes "wfGrid g"
  shows "wfGrid (clearTrail g)"
    and "inGrid a b \<Longrightarrow>
           getCell (clearTrail g) a b = (if getCell g a b = TRAIL then VOID else getCell g a b)"
  unfolding clearTrail_def
  by (rule scan_pointwise [OF assms, where f = "\<lambda>x y v. if v = TRAIL then VOID else v"];
      simp add: setCell_same)+

lemma wfGrid_mkGrid [simp]: "wfGrid (mkGrid f)"
  by (auto simp: wfGrid_def mkGrid_def GRID_WIDTH_def GRID_HEIGHT_def)

lemma nth_upto0: "0 \<le> i \<Longrightarrow> i \<le> n \<Longrightarrow> [0..n] ! nat i = i"
  by (simp add: nth_upto)

lemma getCell_mkGrid [simp]: "inGrid x y \<Longrightarrow> getCell (mkGrid f) x y = f x y"
  by (simp add: getCell_def mkGrid_def inGrid_def nth_upto0)


subsection \<open>The flood fill marks the region of its start\<close>

text \<open>
  The table of directions that the fill walks, and that the safety check of a resolution
  probes, holds exactly the four unit steps.
\<close>

lemma adj4_dirs: "adj4 p q \<longleftrightarrow> (\<exists>d \<in> set dirs. q = (fst p + fst d, snd p + snd d))"
  by (cases p; cases q) (auto simp: adj4_def dirs_def)

lemma adj4_neighbors: "adj4 p q \<longleftrightarrow> (\<exists>n \<in> set neighbors. q = (fst p + fst n, snd p + snd n))"
  by (cases p; cases q) (auto simp: adj4_def neighbors_def)

lemma adj4_sym: "adj4 p q \<Longrightarrow> adj4 q p"
  by (simp add: adj4_def abs_minus_commute)

lemma bossConnected_dirs:
  "bossConnected g b c \<longleftrightarrow>
     hasVal g VOID c \<and> (c \<in> region g VOID b \<or> (\<exists>d \<in> set dirs. c \<in> region g VOID (fst b + fst d, snd b + snd d)))"
  unfolding bossConnected_def adj4_dirs by blast

lemma finite_cells: "finite cells"
proof -
  have "cells \<subseteq> {0..GRID_WIDTH} \<times> {0..GRID_HEIGHT}"
    by (auto simp: cells_def inGrid_def)
  then show ?thesis by (rule finite_subset) simp
qed

lemma hasVal_cells: "{c. hasVal g t c} \<subseteq> cells"
  by (auto simp: hasVal_def cells_def)

lemma finite_hasVal: "finite {c. hasVal g t c}"
  using hasVal_cells finite_cells by (rule finite_subset)

lemma card_cells: "card cells = 3072"
proof -
  have eq: "cells = {0..63} \<times> {0..47}"
    by (auto simp: cells_def inGrid_def GRID_WIDTH_def GRID_HEIGHT_def)
  show ?thesis unfolding eq by (simp add: card_cartesian_product)
qed

lemma card_hasVal_le: "card {c. hasVal g t c} \<le> 3072"
  using card_mono [OF finite_cells hasVal_cells, of g t] by (simp add: card_cells)

lemma finite_marked: "finite (marked g0 t g)"
  by (rule finite_subset [OF _ finite_hasVal [of g0 t]]) (auto simp: marked_def)

lemma fold_steps:
  assumes "P [] a" and "\<And>x ds a. x \<in> set xs \<Longrightarrow> P ds a \<Longrightarrow> P (ds @ [x]) (f x a)"
  shows "P xs (fold f xs a)"
proof -
  have "P (pre @ ys) (fold f ys a)" if "P pre a" "set ys \<subseteq> set xs" for pre ys a
    using that
  proof (induction ys arbitrary: pre a)
    case Nil
    then show ?case by simp
  next
    case (Cons y ys)
    have "P (pre @ [y]) (f y a)" using Cons.prems assms(2) by simp
    from Cons.IH [OF this] Cons.prems show ?case by simp
  qed
  from this [of "[]" a xs] assms(1) show ?thesis by simp
qed

lemma visit_eq:
  "visit t r p d (g, q) =
     (if hasVal g t (shift p d)
      then (setCell g (fst (shift p d)) (snd (shift p d)) r, q @ [shift p d]) else (g, q))"
  by (auto simp: visit_def hasVal_def shift_def inGrid_def Let_def)

lemma hasVal_setCell:
  assumes "wfGrid g" "inGrid (fst n) (snd n)"
  shows "hasVal (setCell g (fst n) (snd n) r) t c \<longleftrightarrow> (if c = n then inGrid (fst n) (snd n) \<and> r = t else hasVal g t c)"
  using assms by (cases c; cases n) (auto simp: hasVal_def getCell_setCell)

lemma closedAt_mono: "closedAt g0 t M ds p \<Longrightarrow> M \<subseteq> M' \<Longrightarrow> closedAt g0 t M' ds p"
  by (auto simp: closedAt_def)

lemma visit_step:
  assumes mid: "fillMid g0 t r s p count bound ds gq" and tr: "t \<noteq> r" and d: "d \<in> set dirs"
  shows "fillMid g0 t r s p count bound (ds @ [d]) (visit t r p d gq)"
proof -
  obtain g q where gq: "gq = (g, q)" by (cases gq)
  let ?n = "shift p d" and ?M = "marked g0 t g"
  from mid have base: "fillBase g0 t r s g q" and pM: "p \<in> ?M"
    and cl: "\<forall>p' \<in> ?M - set q - {p}. closedAt g0 t ?M dirs p'"
    and clp: "closedAt g0 t ?M ds p"
    and cnt: "count + int (length q) = int (card ?M)"
    and bnd: "2 * card {c. hasVal g t c} + length q \<le> bound"
    by (auto simp: fillMid_def gq)
  from base have wf: "wfGrid g"
    and pt: "\<And>c. inGrid (fst c) (snd c) \<Longrightarrow>
               getCell g (fst c) (snd c) = (if c \<in> ?M then r else getCell g0 (fst c) (snd c))"
    and sM: "s \<in> ?M" and qM: "set q \<subseteq> ?M" and Mreg: "?M \<subseteq> region g0 t s"
    by (auto simp: fillBase_def)
  show ?thesis
  proof (cases "hasVal g t ?n")
    case False
    have "closedAt g0 t ?M (ds @ [d]) p"
      using clp False by (auto simp: closedAt_def marked_def)
    with mid False show ?thesis
      by (simp add: visit_eq gq fillMid_def)
  next
    case True
    let ?g' = "setCell g (fst ?n) (snd ?n) r" and ?q' = "q @ [?n]"
    from True have inn: "inGrid (fst ?n) (snd ?n)" and gn: "getCell g (fst ?n) (snd ?n) = t"
      by (auto simp: hasVal_def)
    have nM: "?n \<notin> ?M" using True by (simp add: marked_def)
    with pt [OF inn] gn have g0n: "hasVal g0 t ?n"
      by (simp add: hasVal_def inn)
    have hv: "hasVal ?g' t c \<longleftrightarrow> c \<noteq> ?n \<and> hasVal g t c" for c
      using hasVal_setCell [OF wf inn, of r t c] tr by auto
    have M': "marked g0 t ?g' = insert ?n ?M"
      using g0n True by (auto simp: marked_def hv)
    have wf': "wfGrid ?g'" using wf by simp
    have pt': "getCell ?g' (fst c) (snd c) = (if c \<in> insert ?n ?M then r else getCell g0 (fst c) (snd c))"
      if "inGrid (fst c) (snd c)" for c
      using pt [OF that] getCell_setCell [OF wf inn that, of r]
      by (cases c; cases "shift p d") auto
    have "(s, p) \<in> (link g0 t)\<^sup>*" and hs: "hasVal g0 t s"
      using pM Mreg by (auto simp: region_def)
    moreover have "(p, ?n) \<in> link g0 t"
      using pM g0n d by (auto simp: link_def marked_def adj4_dirs shift_def)
    ultimately have "?n \<in> region g0 t s"
      by (auto simp: region_def)
    then have base': "fillBase g0 t r s ?g' ?q'"
      unfolding fillBase_def M' using wf' pt' sM qM Mreg by auto
    have cl': "\<forall>p' \<in> insert ?n ?M - set ?q' - {p}. closedAt g0 t (insert ?n ?M) dirs p'"
      using cl by (auto intro: closedAt_mono)
    have clp': "closedAt g0 t (insert ?n ?M) (ds @ [d]) p"
      using closedAt_mono [OF clp, of "insert ?n ?M"] by (auto simp: closedAt_def)
    have cnt': "count + int (length ?q') = int (card (insert ?n ?M))"
      using cnt nM finite_marked [of g0 t g] by simp
    have "{c. hasVal ?g' t c} = {c. hasVal g t c} - {?n}"
      by (auto simp: hv)
    then have "card {c. hasVal ?g' t c} = card {c. hasVal g t c} - 1"
      using True by (simp add: finite_hasVal)
    moreover have "card {c. hasVal g t c} > 0"
    proof -
      have "?n \<in> {c. hasVal g t c}" using True by simp
      then show ?thesis using finite_hasVal [of g t] card_gt_0_iff by blast
    qed
    ultimately have bnd': "2 * card {c. hasVal ?g' t c} + length ?q' \<le> bound"
      using bnd by simp
    show ?thesis
      using True base' pM cl' clp' cnt' bnd'
      by (simp add: visit_eq gq fillMid_def M')
  qed
qed


lemma fillInv_pop:
  assumes inv: "fillInv g0 t r s (g, q, count)" and ne: "q \<noteq> []"
  shows "fillMid g0 t r s (last q) (count + 1) (2 * card {c. hasVal g t c} + length q - 1) []
           (g, butlast q)"
proof -
  let ?M = "marked g0 t g"
  have "set (butlast q @ [last q]) = insert (last q) (set (butlast q))"
    by simp
  moreover have "butlast q @ [last q] = q"
    using ne by (rule append_butlast_last_id)
  ultimately have q: "set q = insert (last q) (set (butlast q))"
    by (simp only:)
  have len: "Suc (length (butlast q)) = length q"
    using ne by (simp add: Suc_pred)
  from inv have base: "fillBase g0 t r s g q"
    and cl: "\<forall>p \<in> ?M - set q. closedAt g0 t ?M dirs p"
    and cnt: "count + int (length q) = int (card ?M)"
    by (auto simp: fillInv_def)
  have base': "fillBase g0 t r s g (butlast q)"
    using base q by (auto simp: fillBase_def)
  have last: "last q \<in> ?M"
    using base q by (auto simp: fillBase_def)
  have cl': "\<forall>p' \<in> ?M - set (butlast q) - {last q}. closedAt g0 t ?M dirs p'"
    using cl q by auto
  have cnt': "count + 1 + int (length (butlast q)) = int (card ?M)"
    using cnt len by linarith
  have bnd: "2 * card {c. hasVal g t c} + length (butlast q)
               \<le> 2 * card {c. hasVal g t c} + length q - 1"
    using len by linarith
  show ?thesis
    unfolding fillMid_def using base' last cl' cnt' bnd by (simp add: closedAt_def)
qed

lemma fillMid_done:
  assumes "fillMid g0 t r s p count bound dirs (g, q)"
  shows "fillInv g0 t r s (g, q, count)" and "2 * card {c. hasVal g t c} + length q \<le> bound"
  using assms by (auto simp: fillInv_def fillMid_def)

lemma floodLoop_terminates:
  assumes tr: "t \<noteq> r"
  shows "fillInv g0 t r s (g, q, count) \<Longrightarrow>
         \<exists>g' n. floodLoop t r (g, q, count) = Some (g', n) \<and> fillInv g0 t r s (g', [], n)"
proof (induction "2 * card {c. hasVal g t c} + length q" arbitrary: g q count rule: less_induct)
  case less
  show ?case
  proof (cases "q = []")
    case True
    with less.prems show ?thesis
      by (subst floodLoop.simps) simp
  next
    case False
    let ?m = "2 * card {c. hasVal g t c} + length q"
    obtain g' q' where body: "fold (visit t r (last q)) dirs (g, butlast q) = (g', q')"
      by (cases "fold (visit t r (last q)) dirs (g, butlast q)")
    have "fillMid g0 t r s (last q) (count + 1) (?m - 1) dirs
            (fold (visit t r (last q)) dirs (g, butlast q))"
    proof (rule fold_steps [where P = "fillMid g0 t r s (last q) (count + 1) (?m - 1)"])
      show "fillMid g0 t r s (last q) (count + 1) (?m - 1) [] (g, butlast q)"
        by (rule fillInv_pop [OF less.prems False])
    qed (rule visit_step [OF _ tr])
    then have mid: "fillMid g0 t r s (last q) (count + 1) (?m - 1) dirs (g', q')"
      by (simp add: body)
    have "Suc 0 \<le> length q" using False by (cases q) auto
    with fillMid_done(2) [OF mid]
    have lt: "2 * card {c. hasVal g' t c} + length q' < ?m"
      by linarith
    have inv': "fillInv g0 t r s (g', q', count + 1)"
      by (rule fillMid_done(1) [OF mid])
    from less.hyps [OF lt inv'] obtain g'' n
      where "floodLoop t r (g', q', count + 1) = Some (g'', n)" "fillInv g0 t r s (g'', [], n)"
      by blast
    then show ?thesis
      using False body by (subst floodLoop.simps) simp
  qed
qed

lemma fillInv_final:
  assumes inv: "fillInv g0 t r s (g, [], n)"
  shows "marked g0 t g = region g0 t s"
proof -
  let ?M = "marked g0 t g"
  from inv have sM: "s \<in> ?M" and sub: "?M \<subseteq> region g0 t s"
    and cl: "\<forall>p \<in> ?M. closedAt g0 t ?M dirs p"
    by (auto simp: fillInv_def fillBase_def)
  have "c \<in> ?M" if "(s, c) \<in> (link g0 t)\<^sup>*" for c
    using that
  proof (induction rule: rtrancl_induct)
    case base
    then show ?case by (rule sM)
  next
    case (step a b)
    from step.hyps(2) obtain d where "d \<in> set dirs" "b = shift a d" "hasVal g0 t b"
      by (auto simp: link_def adj4_dirs shift_def)
    with cl step.IH show ?case by (auto simp: closedAt_def)
  qed
  then have "region g0 t s \<subseteq> ?M" by (auto simp: region_def)
  with sub show ?thesis by auto
qed

lemma floodFill_correct:
  assumes wf: "wfGrid g" and tr: "t \<noteq> r" and start: "hasVal g t (sx, sy)"
  shows "\<exists>g'. floodFill g sx sy t r = Some (g', int (card (region g t (sx, sy))))
          \<and> wfGrid g'
          \<and> (\<forall>x y. inGrid x y \<longrightarrow>
                getCell g' x y = (if (x, y) \<in> region g t (sx, sy) then r else getCell g x y))"
proof -
  let ?s = "(sx, sy)" and ?g1 = "setCell g sx sy r"
  from start have ins: "inGrid sx sy" and gs: "getCell g sx sy = t"
    by (auto simp: hasVal_def)
  have hv: "hasVal ?g1 t c \<longleftrightarrow> c \<noteq> ?s \<and> hasVal g t c" for c
    using hasVal_setCell [OF wf, of ?s r t c] ins tr by auto
  have M1: "marked g t ?g1 = {?s}"
    using start by (auto simp: marked_def hv)
  have pt1: "getCell ?g1 (fst c) (snd c) = (if c \<in> {?s} then r else getCell g (fst c) (snd c))"
    if "inGrid (fst c) (snd c)" for c
    using getCell_setCell [OF wf ins that, of r] by (cases c) auto
  have "?s \<in> region g t ?s" using start by (simp add: region_def)
  then have "fillBase g t r ?s ?g1 [?s]"
    unfolding fillBase_def M1 using wf pt1 by simp
  then have inv1: "fillInv g t r ?s (?g1, [?s], 0)"
    by (simp add: fillInv_def M1)
  from floodLoop_terminates [OF tr inv1] obtain g' n
    where run: "floodLoop t r (?g1, [?s], 0) = Some (g', n)" and fin: "fillInv g t r ?s (g', [], n)"
    by blast
  have M: "marked g t g' = region g t ?s" by (rule fillInv_final [OF fin])
  from fin have fb: "fillBase g t r ?s g' []" and n: "n = int (card (region g t ?s))"
    by (simp_all add: fillInv_def M)
  from fb have "wfGrid g'"
    and "\<And>x y. inGrid x y \<Longrightarrow> getCell g' x y = (if (x, y) \<in> region g t ?s then r else getCell g x y)"
    unfolding fillBase_def M by force+
  note this n
  moreover have "floodFill g sx sy t r = Some (g', n)"
    using ins gs run by (simp add: floodFill_def inGrid_def)
  ultimately show ?thesis by auto
qed

lemma floodFill_no_start:
  assumes "\<not> hasVal g t (sx, sy)"
  shows "floodFill g sx sy t r = Some (g, 0)"
  using assms by (auto simp: floodFill_def hasVal_def inGrid_def)

subsection \<open>Cut resolution\<close>

lemma cellOpt_wf:
  assumes "wfGrid g"
  shows "cellOpt g x y = (if inGrid x y then Some (getCell g x y) else None)"
proof -
  have "length (g ! nat y) = nat GRID_WIDTH" if "0 \<le> y" "y < GRID_HEIGHT"
    using assms that by (auto simp: wfGrid_def)
  then show ?thesis
    using assms
    by (auto simp: cellOpt_def rowAt_def elemAt_def inGrid_def getCell_def wfGrid_def)
qed

lemma region_hasVal: "c \<in> region g t s \<Longrightarrow> hasVal g t c"
proof -
  have "hasVal g t c" if "(s, c) \<in> (link g t)\<^sup>*" "hasVal g t s"
    using that by (induction rule: rtrancl_induct) (auto simp: link_def)
  then show "c \<in> region g t s \<Longrightarrow> hasVal g t c"
    by (auto simp: region_def)
qed

lemma region_self: "hasVal g t s \<Longrightarrow> s \<in> region g t s"
  by (simp add: region_def)

lemma region_empty: "\<not> hasVal g t s \<Longrightarrow> region g t s = {}"
  by (simp add: region_def)

lemma region_step:
  assumes "c \<in> region g t n" "hasVal g t b" "adj4 b n"
  shows "c \<in> region g t b"
proof -
  from assms(1) have "hasVal g t n" "(n, c) \<in> (link g t)\<^sup>*"
    by (auto simp: region_def)
  moreover from this assms have "(b, n) \<in> link g t"
    by (simp add: link_def)
  ultimately show ?thesis
    using assms(2) by (auto simp: region_def intro: converse_rtrancl_into_rtrancl)
qed

lemma floodFill_region:
  assumes wf: "wfGrid g" and tr: "t \<noteq> r"
  shows "\<exists>g'. floodFill g sx sy t r = Some (g', int (card (region g t (sx, sy))))
          \<and> wfGrid g'
          \<and> (\<forall>x y. inGrid x y \<longrightarrow>
                getCell g' x y = (if (x, y) \<in> region g t (sx, sy) then r else getCell g x y))"
proof (cases "hasVal g t (sx, sy)")
  case True
  then show ?thesis by (rule floodFill_correct [OF wf tr])
next
  case False
  then show ?thesis
    using wf by (simp add: floodFill_no_start region_empty)
qed

lemma capture_scan:
  assumes wf: "wfGrid g"
  shows "\<exists>g' pts. scanCells (capture temp) (g, 0, []) =
            (g', int (card {c \<in> cells. getCell temp (fst c) (snd c) = VOID}), pts)
          \<and> wfGrid g'
          \<and> (\<forall>x y. inGrid x y \<longrightarrow>
                getCell g' x y = (if getCell temp x y = VOID then CLAIMED else getCell g x y))"
proof -
  let ?T = "\<lambda>D. {c \<in> D. getCell temp (fst c) (snd c) = VOID}"
  let ?I = "\<lambda>D (acc :: grid \<times> int \<times> Point list). case acc of (g', n, pts) \<Rightarrow>
              finite D \<and> wfGrid g' \<and> n = int (card (?T D))
              \<and> (\<forall>x y. inGrid x y \<longrightarrow> getCell g' x y =
                    (if (x, y) \<in> D \<and> getCell temp x y = VOID then CLAIMED else getCell g x y))"
  have "?I cells (scanCells (capture temp) (g, 0, []))"
  proof (rule scanCells_rule [where I = ?I])
    show "?I {} (g, 0, [])" using wf by simp
  next
    fix x y D acc
    assume xy: "inGrid x y" "(x, y) \<notin> D" and I: "?I D acc"
    obtain g' n pts where acc: "acc = (g', n, pts)" by (cases acc)
    from I have fin: "finite D" and wf': "wfGrid g'" and n: "n = int (card (?T D))"
      and pt: "\<And>a b. inGrid a b \<Longrightarrow> getCell g' a b =
                    (if (a, b) \<in> D \<and> getCell temp a b = VOID then CLAIMED else getCell g a b)"
      by (auto simp: acc)
    show "?I (insert (x, y) D) (capture temp x y acc)"
    proof (cases "getCell temp x y = VOID")
      case True
      then have "?T (insert (x, y) D) = insert (x, y) (?T D)" by auto
      moreover have "(x, y) \<notin> ?T D" using xy by simp
      moreover have "finite (?T D)" using fin by simp
      ultimately have "card (?T (insert (x, y) D)) = Suc (card (?T D))" by simp
      then show ?thesis
        using True fin wf' n pt xy(1)
        by (auto simp: acc capture_def getCell_setCell)
    next
      case False
      then have "?T (insert (x, y) D) = ?T D" by auto
      then show ?thesis
        using False fin wf' n pt by (auto simp: acc capture_def)
    qed
  qed
  then show ?thesis by (cases "scanCells (capture temp) (g, 0, [])") (auto simp: cells_def)
qed


lemma seedOf_wf:
  assumes wf: "wfGrid g" and row: "0 \<le> sy" "sy < GRID_HEIGHT"
  shows "seedOf g sx sy =
     Some (if hasVal g VOID (sx, sy) then (sx, sy)
           else case find (\<lambda>n. hasVal g VOID (shift (sx, sy) n)) dirs of
                  Some n \<Rightarrow> shift (sx, sy) n | None \<Rightarrow> (sx, sy))"
proof -
  from wf row have r: "rowAt g sy = Some (g ! nat sy)"
    by (simp add: rowAt_def wfGrid_def)
  have e: "elemAt (g ! nat sy) sx = cellOpt g sx sy"
    by (simp add: cellOpt_def r)
  have c: "(cellOpt g a b = Some VOID) = hasVal g VOID (a, b)" for a b
    by (simp add: cellOpt_wf [OF wf] hasVal_def)
  show ?thesis
    by (simp add: seedOf_def r e c neighbors_def dirs_def shift_def split: option.splits)
qed

lemma captureRegions_wf:
  assumes wf: "wfGrid g" and row: "0 \<le> \<lfloor>ey boss\<rfloor>" "\<lfloor>ey boss\<rfloor> < GRID_HEIGHT"
  shows "\<exists>seed g' pts.
          seedOf g \<lfloor>ex boss\<rfloor> \<lfloor>ey boss\<rfloor> = Some seed
          \<and> captureRegions g boss =
              Some (g', int (card {c. hasVal g VOID c \<and> c \<notin> region g VOID seed}), pts)
          \<and> wfGrid g'
          \<and> (\<forall>x y. inGrid x y \<longrightarrow> getCell g' x y =
                (if getCell g x y = VOID \<and> (x, y) \<notin> region g VOID seed then CLAIMED
                 else getCell g x y))"
proof -
  obtain sx sy where seed: "seedOf g \<lfloor>ex boss\<rfloor> \<lfloor>ey boss\<rfloor> = Some (sx, sy)"
    using seedOf_wf [OF wf row] by (metis surj_pair)
  have ne: "VOID \<noteq> ENEMY_ZONE" by (simp add: VOID_def ENEMY_ZONE_def)
  from floodFill_region [OF wf ne, of sx sy] obtain temp
    where ff: "floodFill g sx sy VOID ENEMY_ZONE = Some (temp, int (card (region g VOID (sx, sy))))"
      and temp: "\<And>x y. inGrid x y \<Longrightarrow>
          getCell temp x y = (if (x, y) \<in> region g VOID (sx, sy) then ENEMY_ZONE else getCell g x y)"
    by blast
  have tv: "(getCell temp x y = VOID) = (getCell g x y = VOID \<and> (x, y) \<notin> region g VOID (sx, sy))"
    if "inGrid x y" for x y
    using temp [OF that] ne by auto
  from capture_scan [OF wf, of temp] obtain g' pts
    where sc: "scanCells (capture temp) (g, 0, []) =
            (g', int (card {c \<in> cells. getCell temp (fst c) (snd c) = VOID}), pts)"
      and wf': "wfGrid g'"
      and pt: "\<And>x y. inGrid x y \<Longrightarrow>
                getCell g' x y = (if getCell temp x y = VOID then CLAIMED else getCell g x y)"
    by blast
  have "{c \<in> cells. getCell temp (fst c) (snd c) = VOID}
          = {c. hasVal g VOID c \<and> c \<notin> region g VOID (sx, sy)}"
    using tv by (auto simp: cells_def hasVal_def)
  with sc have "captureRegions g boss =
      Some (g', int (card {c. hasVal g VOID c \<and> c \<notin> region g VOID (sx, sy)}), pts)"
    by (simp add: captureRegions_def seed ff)
  moreover have "\<forall>x y. inGrid x y \<longrightarrow> getCell g' x y =
                (if getCell g x y = VOID \<and> (x, y) \<notin> region g VOID (sx, sy) then CLAIMED
                 else getCell g x y)"
    using pt tv by simp
  ultimately show ?thesis using seed wf' by blast
qed

lemma seed_region_boss:
  assumes wf: "wfGrid g" and row: "0 \<le> snd b" "snd b < GRID_HEIGHT"
    and one: "\<forall>c c'. bossConnected g b c \<and> bossConnected g b c' \<longrightarrow> c' \<in> region g VOID c"
    and seed: "seedOf g (fst b) (snd b) = Some seed"
  shows "region g VOID seed = {c. bossConnected g b c}"
proof (cases "hasVal g VOID b")
  case True
  then have s: "seed = b"
    using seed seedOf_wf [OF wf row, of "fst b"] by simp
  have "c \<in> region g VOID b" if "d \<in> set dirs" "c \<in> region g VOID (fst b + fst d, snd b + snd d)" for c d
    by (rule region_step [OF that(2) True]) (use that(1) in \<open>auto simp: adj4_dirs\<close>)
  then show ?thesis
    unfolding s by (auto simp: bossConnected_dirs dest: region_hasVal)
next
  case False
  note nb = this
  show ?thesis
  proof (cases "find (\<lambda>n. hasVal g VOID (shift b n)) dirs")
    case None
    then have s: "seed = b"
      using seed seedOf_wf [OF wf row, of "fst b"] nb by simp
    from None have "\<not> hasVal g VOID (shift b d)" if "d \<in> set dirs" for d
      using that by (cases d) (auto simp: find_None_iff)
    then have "region g VOID (fst b + fst d, snd b + snd d) = {}" if "d \<in> set dirs" for d
      using that region_empty [of g VOID "shift b d"] by (simp add: shift_def)
    then show ?thesis
      unfolding s by (auto simp: bossConnected_dirs region_empty [OF nb])
  next
    case (Some n)
    then have s: "seed = shift b n"
      using seed seedOf_wf [OF wf row, of "fst b"] nb by simp
    from Some have n: "n \<in> set dirs" "hasVal g VOID (shift b n)"
      by (auto simp: find_Some_iff in_set_conv_nth)
    then have bc: "bossConnected g b (shift b n)"
      by (auto simp: bossConnected_dirs shift_def intro: region_self)
    have "bossConnected g b c" if "c \<in> region g VOID (shift b n)" for c
      using that n(1) region_hasVal [OF that] by (auto simp: bossConnected_dirs shift_def)
    moreover have "c \<in> region g VOID (shift b n)" if "bossConnected g b c" for c
      using one bc that by blast
    ultimately show ?thesis unfolding s by auto
  qed
qed


lemma applyPowerUp_frame [simp]:
  "grid (applyPowerUp now t s) = grid s"
  "powerUps (applyPowerUp now t s) = powerUps s"
  "score (applyPowerUp now t s) = score s"
  "player (applyPowerUp now t s) = player s"
  "enemies (applyPowerUp now t s) = enemies s"
  "isCuttingMode (applyPowerUp now t s) = isCuttingMode s"
  "gameState (applyPowerUp now t s) = gameState s"
  "level (applyPowerUp now t s) = level s"
  by (cases t; simp add: applyPowerUp_def Let_def)+

lemma applyAll_frame [simp]:
  "grid (applyAll now ps s) = grid s"
  "powerUps (applyAll now ps s) = powerUps s"
  "score (applyAll now ps s) = score s"
  "player (applyAll now ps s) = player s"
  "enemies (applyAll now ps s) = enemies s"
  "isCuttingMode (applyAll now ps s) = isCuttingMode s"
  "gameState (applyAll now ps s) = gameState s"
  "level (applyAll now ps s) = level s"
  unfolding applyAll_def by (induction ps arbitrary: s; simp)+

lemma applyAll_Nil [simp]: "applyAll now [] s = s"
  by (simp add: applyAll_def)

lemma applyAll_Cons [simp]: "applyAll now (p # ps) s = applyAll now ps (applyPowerUp now (ptype p) s)"
  by (simp add: applyAll_def)

lemma applyAll_update [simp]:
  "applyAll now ps (s\<lparr>grid := g\<rparr>) = (applyAll now ps s)\<lparr>grid := g\<rparr>"
proof (induction ps arbitrary: s)
  case Nil
  then show ?case by simp
next
  case (Cons p ps)
  have "applyPowerUp now t (s\<lparr>grid := g\<rparr>) = (applyPowerUp now t s)\<lparr>grid := g\<rparr>" for t
    by (cases t) (simp_all add: applyPowerUp_def Let_def)
  with Cons show ?case by simp
qed

lemma applyAll_events:
  "events (applyAll now ps s) = events s @ replicate (length ps) PlayClaim"
proof (induction ps arbitrary: s)
  case Nil
  then show ?case by simp
next
  case (Cons p ps)
  have "events (applyPowerUp now (ptype p) s) = events s @ [PlayClaim]"
    by (cases "ptype p") (simp_all add: applyPowerUp_def)
  then show ?case by (simp add: Cons.IH)
qed

lemma applyAll_lives:
  "lives (applyAll now ps s) = lives s + int (length (filter (\<lambda>p. ptype p = EXTRA_LIFE) ps))"
proof (induction ps arbitrary: s)
  case Nil
  then show ?case by simp
next
  case (Cons p ps)
  have "lives (applyPowerUp now (ptype p) s) = (if ptype p = EXTRA_LIFE then lives s + 1 else lives s)"
    by (cases "ptype p") (simp_all add: applyPowerUp_def)
  then show ?case by (simp add: Cons.IH)
qed

lemma applyAll_timeLeft:
  "timeLeft (applyAll now ps s)
     = ((\<lambda>t. add64 t 30) ^^ length (filter (\<lambda>p. ptype p = TIME_BONUS) ps)) (timeLeft s)"
proof (induction ps arbitrary: s)
  case Nil
  then show ?case by simp
next
  case (Cons p ps)
  have "timeLeft (applyPowerUp now (ptype p) s)
          = (if ptype p = TIME_BONUS then add64 (timeLeft s) 30 else timeLeft s)"
    by (cases "ptype p") (simp_all add: applyPowerUp_def)
  then show ?case
    using funpow_swap1 [of "\<lambda>t. add64 t 30" "length (filter (\<lambda>p. ptype p = TIME_BONUS) ps)" "timeLeft s"]
    by (cases "ptype p = TIME_BONUS") (simp_all add: Cons.IH)
qed

lemma applyAll_frozen:
  "frozen (applyAll now ps s)
     = (if \<exists>p \<in> set ps. ptype p = FREEZE then add64 now 5000 else frozen s)"
proof (induction ps arbitrary: s)
  case Nil
  then show ?case by simp
next
  case (Cons p ps)
  have "frozen (applyPowerUp now (ptype p) s)
          = (if ptype p = FREEZE then add64 now 5000 else frozen s)"
    by (cases "ptype p") (simp_all add: applyPowerUp_def)
  then show ?case
    by (cases "ptype p = FREEZE") (simp_all add: Cons.IH)
qed

lemma applyAll_invincible:
  "invincible (applyAll now ps s)
     = (if \<exists>p \<in> set ps. ptype p = INVINCIBLE then add64 now 7000 else invincible s)"
proof (induction ps arbitrary: s)
  case Nil
  then show ?case by simp
next
  case (Cons p ps)
  have "invincible (applyPowerUp now (ptype p) s)
          = (if ptype p = INVINCIBLE then add64 now 7000 else invincible s)"
    by (cases "ptype p") (simp_all add: applyPowerUp_def)
  then show ?case
    by (cases "ptype p = INVINCIBLE") (simp_all add: Cons.IH)
qed

lemma filterPowerUps_wf:
  assumes "wfGrid (grid s)" "\<forall>p \<in> set ps. inGrid (pux p) (puy p)"
  shows "filterPowerUps now ps s =
     Some (filter (\<lambda>p. getCell (grid s) (pux p) (puy p) \<noteq> CLAIMED) ps,
           applyAll now (filter (\<lambda>p. getCell (grid s) (pux p) (puy p) = CLAIMED) ps) s)"
  using assms
proof (induction ps arbitrary: s)
  case Nil
  then show ?case by simp
next
  case (Cons p ps)
  from Cons.prems have inp: "inGrid (pux p) (puy p)" by simp
  with Cons.prems(1) have r: "rowAt (grid s) (puy p) = Some (grid s ! nat (puy p))"
    by (simp add: rowAt_def wfGrid_def inGrid_def)
  have e: "elemAt (grid s ! nat (puy p)) (pux p) = Some (getCell (grid s) (pux p) (puy p))"
    using cellOpt_wf [OF Cons.prems(1), of "pux p" "puy p"] inp by (simp add: cellOpt_def r)
  show ?case
    using Cons.IH [of s] Cons.IH [of "applyPowerUp now (ptype p) s"] Cons.prems
    by (simp add: r e)
qed

lemma resolveFill_wf:
  assumes wf: "wfGrid (grid s)" and boss: "find (\<lambda>e. etype e = Boss) (enemies s) = Some boss"
    and row: "0 \<le> \<lfloor>ey boss\<rfloor>" "\<lfloor>ey boss\<rfloor> < GRID_HEIGHT" and pin: "powerUpsInGrid s"
  shows "\<exists>seed g' pts s'.
          seedOf (grid s) \<lfloor>ex boss\<rfloor> \<lfloor>ey boss\<rfloor> = Some seed
          \<and> captureRegions (grid s) boss =
              Some (g', int (card {c. hasVal (grid s) VOID c \<and> c \<notin> region (grid s) VOID seed}), pts)
          \<and> wfGrid g'
          \<and> (\<forall>x y. inGrid x y \<longrightarrow> getCell g' x y =
                (if getCell (grid s) x y = VOID \<and> (x, y) \<notin> region (grid s) VOID seed then CLAIMED
                 else getCell (grid s) x y))
          \<and> resolveFill now pc s = Some s' \<and> grid s' = g'
          \<and> powerUps s' = filter (\<lambda>p. getCell g' (pux p) (puy p) \<noteq> CLAIMED) (powerUps s)
          \<and> lives s' = lives (applyAll now (filter (\<lambda>p. getCell g' (pux p) (puy p) = CLAIMED) (powerUps s)) s)
          \<and> timeLeft s' = timeLeft (applyAll now (filter (\<lambda>p. getCell g' (pux p) (puy p) = CLAIMED) (powerUps s)) s)
          \<and> frozen s' = frozen (applyAll now (filter (\<lambda>p. getCell g' (pux p) (puy p) = CLAIMED) (powerUps s)) s)
          \<and> invincible s' = invincible (applyAll now (filter (\<lambda>p. getCell g' (pux p) (puy p) = CLAIMED) (powerUps s)) s)
          \<and> score s' = score s +
               (if card {c. hasVal (grid s) VOID c \<and> c \<notin> region (grid s) VOID seed} > 0
                then addedScore pow64 (int (card {c. hasVal (grid s) VOID c \<and> c \<notin> region (grid s) VOID seed})) pc
                else 0)
          \<and> player s' = player s \<and> enemies s' = enemies s \<and> isCuttingMode s' = isCuttingMode s
          \<and> gameState s' = gameState s \<and> level s' = level s
          \<and> events s' =
               events (applyAll now (filter (\<lambda>p. getCell g' (pux p) (puy p) = CLAIMED) (powerUps s)) s)
               @ (if card {c. hasVal (grid s) VOID c \<and> c \<notin> region (grid s) VOID seed} > 0
                  then [PlayClaim] else [])"
proof -
  from captureRegions_wf [OF wf row] obtain seed g' pts where
    seed: "seedOf (grid s) \<lfloor>ex boss\<rfloor> \<lfloor>ey boss\<rfloor> = Some seed"
    and cr: "captureRegions (grid s) boss =
              Some (g', int (card {c. hasVal (grid s) VOID c \<and> c \<notin> region (grid s) VOID seed}), pts)"
    and wf': "wfGrid g'"
    and pt: "\<forall>x y. inGrid x y \<longrightarrow> getCell g' x y =
                (if getCell (grid s) x y = VOID \<and> (x, y) \<notin> region (grid s) VOID seed then CLAIMED
                 else getCell (grid s) x y)"
    by blast
  have fp: "filterPowerUps now (powerUps s) (s\<lparr>grid := g'\<rparr>) =
     Some (filter (\<lambda>p. getCell g' (pux p) (puy p) \<noteq> CLAIMED) (powerUps s),
           applyAll now (filter (\<lambda>p. getCell g' (pux p) (puy p) = CLAIMED) (powerUps s)) (s\<lparr>grid := g'\<rparr>))"
    using filterPowerUps_wf [of "s\<lparr>grid := g'\<rparr>" "powerUps s" now] wf' pin
    by (simp add: powerUpsInGrid_def)
  show ?thesis
    using seed cr wf' pt
    by (simp add: resolveFill_def boss fp Let_def)
qed

subsection \<open>What a resolution claims\<close>

lemma region_closed:
  assumes "s \<in> S" and "\<And>p q. p \<in> S \<Longrightarrow> (p, q) \<in> link g t \<Longrightarrow> q \<in> S"
  shows "region g t s \<subseteq> S"
proof
  fix c assume "c \<in> region g t s"
  then have "(s, c) \<in> (link g t)\<^sup>*" by (simp add: region_def)
  then show "c \<in> S"
    by (induction rule: rtrancl_induct) (use assms in auto)
qed

text \<open>
  C1. Take a grid as the resolution finds it, in which the Void cells 4-connected to the
  boss's cell form exactly one region, where two cells are 4-neighbours when they are one
  step apart along one axis. Then \<open>resolveFill\<close> returns, turns every Void cell that
  is not 4-connected to the boss's cell into Claimed in that one pass, whatever the number
  of separate regions they form, and leaves every other cell as it was, so the
  boss-connected cells stay Void. Its \<open>capturedCount\<close> is the number of cells it claimed,
  and it is what the score is raised by.
\<close>

theorem resolveFill_claims_all_but_boss_region:
  assumes "wfGrid (grid s)"
    and "find (\<lambda>e. etype e = Boss) (enemies s) = Some boss"
    and "inGrid (fst (cellOf boss)) (snd (cellOf boss))"
    and "oneBossRegion (grid s) (cellOf boss)"
    and "powerUpsInGrid s"
  shows "\<exists>s' pts.
      resolveFill now currentPercent s = Some s'
      \<and> wfGrid (grid s')
      \<and> (\<forall>x y. inGrid x y \<longrightarrow>
            getCell (grid s') x y =
              (if getCell (grid s) x y = VOID \<and> \<not> bossConnected (grid s) (cellOf boss) (x, y)
               then CLAIMED else getCell (grid s) x y))
      \<and> captureRegions (grid s) boss =
            Some (grid s',
                  int (card {c. hasVal (grid s) VOID c \<and> \<not> bossConnected (grid s) (cellOf boss) c}),
                  pts)
      \<and> score s' = score s +
            (if card {c. hasVal (grid s) VOID c \<and> \<not> bossConnected (grid s) (cellOf boss) c} > 0
             then addedScore pow64
                    (int (card {c. hasVal (grid s) VOID c \<and> \<not> bossConnected (grid s) (cellOf boss) c}))
                    currentPercent
             else 0)"
proof -
  let ?b = "cellOf boss"
  have row: "0 \<le> \<lfloor>ey boss\<rfloor>" "\<lfloor>ey boss\<rfloor> < GRID_HEIGHT"
    using assms(3) by (simp_all add: cellOf_def inGrid_def)
  from resolveFill_wf [OF assms(1,2) row assms(5), of now currentPercent]
  obtain seed g' pts s' where
    seed: "seedOf (grid s) \<lfloor>ex boss\<rfloor> \<lfloor>ey boss\<rfloor> = Some seed"
    and cr: "captureRegions (grid s) boss =
              Some (g', int (card {c. hasVal (grid s) VOID c \<and> c \<notin> region (grid s) VOID seed}), pts)"
    and wf': "wfGrid g'"
    and pt: "\<forall>x y. inGrid x y \<longrightarrow> getCell g' x y =
                (if getCell (grid s) x y = VOID \<and> (x, y) \<notin> region (grid s) VOID seed then CLAIMED
                 else getCell (grid s) x y)"
    and rf: "resolveFill now currentPercent s = Some s'" and g': "grid s' = g'"
    and sc: "score s' = score s +
               (if card {c. hasVal (grid s) VOID c \<and> c \<notin> region (grid s) VOID seed} > 0
                then addedScore pow64 (int (card {c. hasVal (grid s) VOID c \<and> c \<notin> region (grid s) VOID seed}))
                       currentPercent
                else 0)"
    by blast
  have one: "\<forall>c c'. bossConnected (grid s) ?b c \<and> bossConnected (grid s) ?b c'
               \<longrightarrow> c' \<in> region (grid s) VOID c"
    using assms(4) by (simp add: oneBossRegion_def)
  have reg: "region (grid s) VOID seed = {c. bossConnected (grid s) ?b c}"
    by (rule seed_region_boss [OF assms(1) _ _ one])
       (use row seed in \<open>simp_all add: cellOf_def\<close>)
  show ?thesis
    using rf wf' pt cr sc unfolding reg g' [symmetric] by auto
qed


lemma hasVal_mkGrid: "hasVal (mkGrid f) t c \<longleftrightarrow> inGrid (fst c) (snd c) \<and> f (fst c) (snd c) = t"
  by (auto simp: hasVal_def)

lemma region_extend: "c \<in> region g t s \<Longrightarrow> (c, c') \<in> link g t \<Longrightarrow> c' \<in> region g t s"
  by (auto simp: region_def)

lemma region_trans: "a \<in> region g t s \<Longrightarrow> b \<in> region g t a \<Longrightarrow> b \<in> region g t s"
  by (auto simp: region_def)

lemma region_sym:
  assumes "c \<in> region g t s"
  shows "s \<in> region g t c"
proof -
  have "sym (link g t)"
    by (auto simp: sym_def link_def adj4_sym)
  then have "sym ((link g t)\<^sup>*)" by (rule sym_rtrancl)
  moreover have "(s, c) \<in> (link g t)\<^sup>*" "hasVal g t c"
    using assms region_hasVal [OF assms] by (simp_all add: region_def)
  ultimately show ?thesis by (auto simp: region_def dest: symD)
qed

lemma islandGrid_void:
  "hasVal islandGrid VOID c \<longleftrightarrow>
     c \<in> {(32, 24), (33, 24), (33, 25), (34, 26), (5, 5), (5, 6), (6, 6)}"
  by (cases c)
     (auto simp: islandGrid_def hasVal_mkGrid inGrid_def GRID_WIDTH_def GRID_HEIGHT_def
        VOID_def CLAIMED_def)

lemma islandGrid_closed:
  assumes "s \<in> {(32, 24), (33, 24), (33, 25)}"
  shows "region islandGrid VOID s \<subseteq> {(32, 24), (33, 24), (33, 25)}"
  using assms by (rule region_closed) (auto simp: link_def adj4_def islandGrid_void)

lemma islandGrid_boss_region: "region islandGrid VOID (32, 24) = {(32, 24), (33, 24), (33, 25)}"
proof -
  have a: "(32, 24) \<in> region islandGrid VOID (32, 24)"
    by (rule region_self) (simp add: islandGrid_void)
  have b: "(33, 24) \<in> region islandGrid VOID (32, 24)"
    by (rule region_extend [OF a]) (simp add: link_def adj4_def islandGrid_void)
  have c: "(33, 25) \<in> region islandGrid VOID (32, 24)"
    by (rule region_extend [OF b]) (simp add: link_def adj4_def islandGrid_void)
  show ?thesis
    using a b c islandGrid_closed [of "(32, 24)"] by auto
qed

lemma islandGrid_bossConnected:
  "bossConnected islandGrid (32, 24) c \<longleftrightarrow> c \<in> {(32, 24), (33, 24), (33, 25)}"
proof -
  have r: "region islandGrid VOID n \<subseteq> {(32, 24), (33, 24), (33, 25)}" if "adj4 (32, 24) n" for n
  proof (cases "hasVal islandGrid VOID n")
    case True
    with that have "n = (33, 24)"
      by (auto simp: islandGrid_void adj4_def)
    then show ?thesis using islandGrid_closed [of n] by simp
  next
    case False
    then show ?thesis by (simp add: region_empty)
  qed
  show ?thesis
    unfolding bossConnected_def islandGrid_boss_region
    using r by (auto simp: islandGrid_void)
qed

lemma islandGrid_oneBossRegion: "oneBossRegion islandGrid (32, 24)"
proof -
  have "c' \<in> region islandGrid VOID c"
    if "c \<in> region islandGrid VOID (32, 24)" "c' \<in> region islandGrid VOID (32, 24)" for c c'
    using region_trans [OF region_sym [OF that(1)] that(2)] .
  then show ?thesis
    unfolding oneBossRegion_def islandGrid_bossConnected
    by (auto simp: islandGrid_boss_region)
qed

theorem resolveFill_claims_all_but_boss_region_witness:
  "wfGrid (grid islandState)
   \<and> find (\<lambda>e. etype e = Boss) (enemies islandState) = Some (bossAt (65 / 2) (99 / 4))
   \<and> cellOf (bossAt (65 / 2) (99 / 4)) = (32, 24) \<and> inGrid 32 24
   \<and> oneBossRegion (grid islandState) (32, 24)
   \<and> powerUpsInGrid islandState
   \<and> {c. hasVal (grid islandState) VOID c}
       = {(32, 24), (33, 24), (33, 25), (34, 26), (5, 5), (5, 6), (6, 6)}
   \<and> {c. bossConnected (grid islandState) (32, 24) c} = {(32, 24), (33, 24), (33, 25)}
   \<and> (\<exists>s'. resolveFill 0 (1 / 2) islandState = Some s'
         \<and> getCell (grid s') 32 24 = VOID \<and> getCell (grid s') 33 24 = VOID
         \<and> getCell (grid s') 33 25 = VOID
         \<and> getCell (grid s') 34 26 = CLAIMED
         \<and> getCell (grid s') 5 5 = CLAIMED \<and> getCell (grid s') 5 6 = CLAIMED
         \<and> getCell (grid s') 6 6 = CLAIMED
         \<and> score s' = score islandState + 40)"
proof -
  let ?boss = "bossAt (65 / 2) (99 / 4)"
  have g: "grid islandState = islandGrid"
    by (simp add: islandState_def stateOf_def)
  have wf: "wfGrid (grid islandState)"
    by (simp add: g islandGrid_def)
  have fb: "find (\<lambda>e. etype e = Boss) (enemies islandState) = Some ?boss"
    by (simp add: islandState_def stateOf_def bossAt_def)
  have cb: "cellOf ?boss = (32, 24)"
    by (simp add: cellOf_def bossAt_def)
  have ins: "inGrid 32 24" "inGrid 33 24" "inGrid 33 25" "inGrid 34 26"
    "inGrid 5 5" "inGrid 5 6" "inGrid 6 6"
    by (simp_all add: inGrid_def GRID_WIDTH_def GRID_HEIGHT_def)
  have one: "oneBossRegion (grid islandState) (32, 24)"
    by (simp add: g islandGrid_oneBossRegion)
  have pin: "powerUpsInGrid islandState"
    by (simp add: powerUpsInGrid_def islandState_def stateOf_def ins)
  have cells: "getCell islandGrid 32 24 = VOID" "getCell islandGrid 33 24 = VOID"
    "getCell islandGrid 33 25 = VOID" "getCell islandGrid 34 26 = VOID"
    "getCell islandGrid 5 5 = VOID" "getCell islandGrid 5 6 = VOID" "getCell islandGrid 6 6 = VOID"
    using ins by (simp_all add: islandGrid_def)
  have void: "{c. hasVal islandGrid VOID c}
                = {(32, 24), (33, 24), (33, 25), (34, 26), (5, 5), (5, 6), (6, 6)}"
    by (auto simp: islandGrid_void)
  have conn: "{c. bossConnected islandGrid (32, 24) c} = {(32, 24), (33, 24), (33, 25)}"
    by (auto simp: islandGrid_bossConnected)
  have cap: "{c. hasVal islandGrid VOID c \<and> \<not> bossConnected islandGrid (32, 24) c}
               = {(34, 26), (5, 5), (5, 6), (6, 6)}"
    by (auto simp: islandGrid_void islandGrid_bossConnected)
  have sc: "addedScore pow64 4 (1 / 2) = 40"
    using score_low [of 4 "1 / 2" pow64] half_le_d08 by simp
  from resolveFill_claims_all_but_boss_region [of islandState ?boss 0 "1 / 2"]
  obtain s' where "resolveFill 0 (1 / 2) islandState = Some s'"
    and "\<forall>x y. inGrid x y \<longrightarrow> getCell (grid s') x y =
           (if getCell islandGrid x y = VOID \<and> \<not> bossConnected islandGrid (32, 24) (x, y)
            then CLAIMED else getCell islandGrid x y)"
    and "score s' = score islandState + 40"
    using wf fb ins(1) one pin by (auto simp: cb g cap sc)
  then have "resolveFill 0 (1 / 2) islandState = Some s'
         \<and> getCell (grid s') 32 24 = VOID \<and> getCell (grid s') 33 24 = VOID
         \<and> getCell (grid s') 33 25 = VOID
         \<and> getCell (grid s') 34 26 = CLAIMED
         \<and> getCell (grid s') 5 5 = CLAIMED \<and> getCell (grid s') 5 6 = CLAIMED
         \<and> getCell (grid s') 6 6 = CLAIMED
         \<and> score s' = score islandState + 40"
    using ins cells by (simp add: islandGrid_bossConnected)
  then show ?thesis
    using wf fb cb ins(1) one pin void conn unfolding g by blast
qed


lemma walledState_facts:
  shows "grid walledState = walledGrid" and "wfGrid walledGrid"
    and "find (\<lambda>e. etype e = Boss) (enemies walledState) = Some (bossAt (65 / 2) (99 / 4))"
    and "cellOf (bossAt (65 / 2) (99 / 4)) = (32, 24)"
    and "powerUpsInGrid walledState"
    and "powerUps walledState = [\<lparr>pid = 1, pux = 5, puy = 5, ptype = EXTRA_LIFE\<rparr>]"
    and "lives walledState = 3"
  by (simp_all add: walledState_def stateOf_def walledGrid_def bossAt_def cellOf_def
      powerUpsInGrid_def inGrid_def GRID_WIDTH_def GRID_HEIGHT_def)

lemma walledGrid_void:
  "hasVal walledGrid VOID c \<longleftrightarrow>
     inGrid (fst c) (snd c) \<and> \<not> isBorder (fst c) (snd c)
     \<and> \<not> (31 \<le> fst c \<and> fst c \<le> 33 \<and> 23 \<le> snd c \<and> snd c \<le> 25)"
  by (auto simp: walledGrid_def hasVal_mkGrid VOID_def CLAIMED_def)

lemma walledGrid_cellOpt:
  "(cellOpt walledGrid a b \<noteq> Some VOID) = (\<not> hasVal walledGrid VOID (a, b))"
  using walledState_facts(2) by (simp add: cellOpt_wf hasVal_def)

lemma walledGrid_cells:
  shows "\<not> hasVal walledGrid VOID (32, 24)" and "\<not> hasVal walledGrid VOID (32, 25)"
    and "\<not> hasVal walledGrid VOID (32, 23)" and "\<not> hasVal walledGrid VOID (33, 24)"
    and "\<not> hasVal walledGrid VOID (31, 24)" and "hasVal walledGrid VOID (5, 5)"
    and "inGrid 5 5" and "inGrid 32 24"
  by (simp_all add: walledGrid_void inGrid_def isBorder_def GRID_WIDTH_def GRID_HEIGHT_def)

text \<open>
  C3, as stated, fails: with the boss on a Claimed block whose four neighbours are Claimed
  too, the resolution claims the Void cell (5, 5), applies and removes the power-up on it,
  and raises the score.
\<close>

theorem walled_boss_no_op_counterexample:
  "cellOf (bossAt (65 / 2) (99 / 4)) = (32, 24)
   \<and> cellOpt (grid walledState) 32 24 \<noteq> Some VOID
   \<and> cellOpt (grid walledState) 32 25 \<noteq> Some VOID
   \<and> cellOpt (grid walledState) 32 23 \<noteq> Some VOID
   \<and> cellOpt (grid walledState) 33 24 \<noteq> Some VOID
   \<and> cellOpt (grid walledState) 31 24 \<noteq> Some VOID
   \<and> getCell (grid walledState) 5 5 = VOID
   \<and> resolveFill 1000 (229 / 3072) walledState \<noteq> None
   \<and> getCell (grid (the (resolveFill 1000 (229 / 3072) walledState))) 5 5 = CLAIMED
   \<and> powerUps (the (resolveFill 1000 (229 / 3072) walledState)) = []
   \<and> lives (the (resolveFill 1000 (229 / 3072) walledState)) = lives walledState + 1
   \<and> score (the (resolveFill 1000 (229 / 3072) walledState)) > score walledState"
proof -
  let ?boss = "bossAt (65 / 2) (99 / 4)" and ?pu = "\<lparr>pid = 1, pux = 5, puy = 5, ptype = EXTRA_LIFE\<rparr>"
  note g = walledState_facts(1) and pus = walledState_facts(6)
  have wf: "wfGrid (grid walledState)"
    by (simp add: walledState_facts)
  have row: "0 \<le> \<lfloor>ey ?boss\<rfloor>" "\<lfloor>ey ?boss\<rfloor> < GRID_HEIGHT"
    by (simp_all add: bossAt_def GRID_HEIGHT_def)
  from resolveFill_wf [OF wf walledState_facts(3) row walledState_facts(5), of 1000 "229 / 3072"]
  obtain seed s' where
    seed: "seedOf walledGrid \<lfloor>ex ?boss\<rfloor> \<lfloor>ey ?boss\<rfloor> = Some seed"
    and pt: "\<forall>x y. inGrid x y \<longrightarrow> getCell (grid s') x y =
                (if getCell walledGrid x y = VOID \<and> (x, y) \<notin> region walledGrid VOID seed then CLAIMED
                 else getCell walledGrid x y)"
    and rf: "resolveFill 1000 (229 / 3072) walledState = Some s'"
    and pu: "powerUps s' = filter (\<lambda>p. getCell (grid s') (pux p) (puy p) \<noteq> CLAIMED) [?pu]"
    and lv: "lives s' = lives (applyAll 1000 (filter (\<lambda>p. getCell (grid s') (pux p) (puy p) = CLAIMED) [?pu]) walledState)"
    and sc: "score s' = score walledState +
               (if card {c. hasVal walledGrid VOID c \<and> c \<notin> region walledGrid VOID seed} > 0
                then addedScore pow64 (int (card {c. hasVal walledGrid VOID c \<and> c \<notin> region walledGrid VOID seed}))
                       (229 / 3072)
                else 0)"
    unfolding g pus by blast
  have "seed = (32, 24)"
    using seed seedOf_wf [OF wf row, of "\<lfloor>ex ?boss\<rfloor>"] walledGrid_cells
    by (simp add: g bossAt_def dirs_def shift_def)
  then have reg: "region walledGrid VOID seed = {}"
    using walledGrid_cells(1) by (simp add: region_empty)
  have c55: "getCell (grid s') 5 5 = CLAIMED"
    using pt walledGrid_cells(6,7) by (simp add: reg hasVal_def)
  have "(5, 5) \<in> {c. hasVal walledGrid VOID c}" using walledGrid_cells(6) by simp
  then have pos: "0 < card {c. hasVal walledGrid VOID c}"
    using finite_hasVal [of walledGrid VOID] card_gt_0_iff by blast
  have "229 / 3072 \<le> d08" using half_le_d08 by simp
  from score_low [OF _ _ this, of "int (card {c. hasVal walledGrid VOID c})" pow64]
  have "score s' > score walledState"
    using sc pos card_hasVal_le [of walledGrid VOID] by (simp add: reg)
  moreover have "lives s' = lives walledState + 1" "powerUps s' = []"
    using lv pu c55 by (simp_all add: applyPowerUp_def)
  ultimately show ?thesis
    using rf c55 walledGrid_cells walledState_facts(4)
    by (simp add: g walledGrid_cellOpt hasVal_def)
qed

text \<open>
  C3, amended. When the boss's cell is not Void and none of its four neighbours is Void,
  the fill marks nothing and the resolution claims every Void cell of the grid: each Void
  cell becomes Claimed and no other cell changes, \<open>capturedCount\<close> is the number of Void
  cells, every live power-up on a cell that is now Claimed is applied and removed, and the
  score is raised when at least one cell was claimed.
\<close>

theorem resolveFill_walled_boss_claims_every_void:
  assumes "wfGrid (grid s)"
    and "find (\<lambda>e. etype e = Boss) (enemies s) = Some boss"
    and "inGrid (fst (cellOf boss)) (snd (cellOf boss))"
    and "cellOpt (grid s) (fst (cellOf boss)) (snd (cellOf boss)) \<noteq> Some VOID"
    and "\<forall>n \<in> set neighbors.
           cellOpt (grid s) (fst (cellOf boss) + fst n) (snd (cellOf boss) + snd n) \<noteq> Some VOID"
    and "powerUpsInGrid s"
  shows "\<exists>s' pts.
      resolveFill now currentPercent s = Some s'
      \<and> wfGrid (grid s')
      \<and> (\<forall>x y. inGrid x y \<longrightarrow>
            getCell (grid s') x y = (if getCell (grid s) x y = VOID then CLAIMED else getCell (grid s) x y))
      \<and> captureRegions (grid s) boss = Some (grid s', int (card {c. hasVal (grid s) VOID c}), pts)
      \<and> powerUps s' = filter (\<lambda>p. getCell (grid s') (pux p) (puy p) \<noteq> CLAIMED) (powerUps s)
      \<and> lives s' = lives (applyAll now (capturedPowerUps (grid s') (powerUps s)) s)
      \<and> timeLeft s' = timeLeft (applyAll now (capturedPowerUps (grid s') (powerUps s)) s)
      \<and> frozen s' = frozen (applyAll now (capturedPowerUps (grid s') (powerUps s)) s)
      \<and> invincible s' = invincible (applyAll now (capturedPowerUps (grid s') (powerUps s)) s)
      \<and> score s' = score s +
            (if card {c. hasVal (grid s) VOID c} > 0
             then addedScore pow64 (int (card {c. hasVal (grid s) VOID c})) currentPercent else 0)"
proof -
  let ?b = "cellOf boss" and ?g = "grid s"
  have row: "0 \<le> \<lfloor>ey boss\<rfloor>" "\<lfloor>ey boss\<rfloor> < GRID_HEIGHT"
    using assms(3) by (simp_all add: cellOf_def inGrid_def)
  have co: "(cellOpt ?g a b \<noteq> Some VOID) = (\<not> hasVal ?g VOID (a, b))" for a b
    using assms(1) by (simp add: cellOpt_wf hasVal_def)
  have nb: "\<not> hasVal ?g VOID ?b"
    using assms(4) by (simp add: co)
  have nn: "\<not> hasVal ?g VOID (fst ?b + fst d, snd ?b + snd d)" if "d \<in> set dirs" for d
    using assms(5) that by (auto simp: co neighbors_def dirs_def)
  have none: "\<not> bossConnected ?g ?b c" for c
    using region_empty [OF nb] region_empty [OF nn] by (simp add: bossConnected_dirs)
  from resolveFill_wf [OF assms(1,2) row assms(6), of now currentPercent]
  obtain seed g' pts s' where
    seed: "seedOf ?g \<lfloor>ex boss\<rfloor> \<lfloor>ey boss\<rfloor> = Some seed"
    and rest: "captureRegions ?g boss =
              Some (g', int (card {c. hasVal ?g VOID c \<and> c \<notin> region ?g VOID seed}), pts)"
      "wfGrid g'"
      "\<forall>x y. inGrid x y \<longrightarrow> getCell g' x y =
                (if getCell ?g x y = VOID \<and> (x, y) \<notin> region ?g VOID seed then CLAIMED
                 else getCell ?g x y)"
      "resolveFill now currentPercent s = Some s'" "grid s' = g'"
      "powerUps s' = filter (\<lambda>p. getCell g' (pux p) (puy p) \<noteq> CLAIMED) (powerUps s)"
      "lives s' = lives (applyAll now (filter (\<lambda>p. getCell g' (pux p) (puy p) = CLAIMED) (powerUps s)) s)"
      "timeLeft s' = timeLeft (applyAll now (filter (\<lambda>p. getCell g' (pux p) (puy p) = CLAIMED) (powerUps s)) s)"
      "frozen s' = frozen (applyAll now (filter (\<lambda>p. getCell g' (pux p) (puy p) = CLAIMED) (powerUps s)) s)"
      "invincible s' = invincible (applyAll now (filter (\<lambda>p. getCell g' (pux p) (puy p) = CLAIMED) (powerUps s)) s)"
      "score s' = score s +
               (if card {c. hasVal ?g VOID c \<and> c \<notin> region ?g VOID seed} > 0
                then addedScore pow64 (int (card {c. hasVal ?g VOID c \<and> c \<notin> region ?g VOID seed}))
                       currentPercent
                else 0)"
    by blast
  have "region ?g VOID seed = {c. bossConnected ?g ?b c}"
    by (rule seed_region_boss [OF assms(1)])
       (use row seed none in \<open>simp_all add: cellOf_def\<close>)
  then have reg: "region ?g VOID seed = {}"
    using none by simp
  show ?thesis
    using rest unfolding reg capturedPowerUps_def by auto
qed


theorem resolveFill_walled_boss_claims_every_void_witness:
  "wfGrid (grid walledState)
   \<and> find (\<lambda>e. etype e = Boss) (enemies walledState) = Some (bossAt (65 / 2) (99 / 4))
   \<and> cellOf (bossAt (65 / 2) (99 / 4)) = (32, 24) \<and> inGrid 32 24
   \<and> cellOpt (grid walledState) 32 24 \<noteq> Some VOID
   \<and> neighbors = [(0, 1), (0, -1), (1, 0), (-1, 0)]
   \<and> cellOpt (grid walledState) (32 + 0) (24 + 1) \<noteq> Some VOID
   \<and> cellOpt (grid walledState) (32 + 0) (24 + -1) \<noteq> Some VOID
   \<and> cellOpt (grid walledState) (32 + 1) (24 + 0) \<noteq> Some VOID
   \<and> cellOpt (grid walledState) (32 + -1) (24 + 0) \<noteq> Some VOID
   \<and> powerUpsInGrid walledState
   \<and> inGrid 5 5 \<and> getCell (grid walledState) 5 5 = VOID
   \<and> (\<exists>s'. resolveFill 1000 (229 / 3072) walledState = Some s'
         \<and> getCell (grid s') 5 5 = CLAIMED \<and> getCell (grid s') 32 24 = CLAIMED)"
proof -
  let ?boss = "bossAt (65 / 2) (99 / 4)"
  note g = walledState_facts(1)
  have wf: "wfGrid (grid walledState)"
    by (simp add: walledState_facts)
  have h3: "inGrid (fst (cellOf ?boss)) (snd (cellOf ?boss))"
    by (simp add: walledState_facts(4) walledGrid_cells)
  have h4: "cellOpt (grid walledState) (fst (cellOf ?boss)) (snd (cellOf ?boss)) \<noteq> Some VOID"
    by (simp add: walledState_facts(4) g walledGrid_cellOpt walledGrid_cells)
  have h5: "\<forall>n \<in> set neighbors.
      cellOpt (grid walledState) (fst (cellOf ?boss) + fst n) (snd (cellOf ?boss) + snd n) \<noteq> Some VOID"
    by (simp add: walledState_facts(4) g walledGrid_cellOpt walledGrid_cells neighbors_def)
  have c: "getCell walledGrid 5 5 = VOID" "getCell walledGrid 32 24 \<noteq> VOID"
    using walledGrid_cells by (simp_all add: hasVal_def)
  have c2: "getCell walledGrid 32 24 = CLAIMED"
    using walledGrid_cells(8) by (simp add: walledGrid_def)
  from resolveFill_walled_boss_claims_every_void
         [OF wf walledState_facts(3) h3 h4 h5 walledState_facts(5), of 1000 "229 / 3072"]
  obtain s' where "resolveFill 1000 (229 / 3072) walledState = Some s'"
    and "\<forall>x y. inGrid x y \<longrightarrow>
            getCell (grid s') x y = (if getCell walledGrid x y = VOID then CLAIMED else getCell walledGrid x y)"
    unfolding g by blast
  then have "resolveFill 1000 (229 / 3072) walledState = Some s'
         \<and> getCell (grid s') 5 5 = CLAIMED \<and> getCell (grid s') 32 24 = CLAIMED"
    using walledGrid_cells(7,8) c c2 by simp
  then show ?thesis
    using wf walledState_facts(3,4,5) h3 h4 h5 walledGrid_cells(7,8) c
    by (auto simp: g walledState_facts(4) neighbors_def)
qed

lemma count_list_filter: "P p \<Longrightarrow> count_list (filter P ps) p = count_list ps p"
  by (induction ps) auto

text \<open>
  C9. A resolution applies the live power-ups whose cell is Claimed afterwards, among them
  every one whose cell went from Void to Claimed, once each and nothing else: the sound of
  an application is played once for each of them, in addition to the one sound of a
  resolution that claimed a cell; the lives rise by one for each Extra Life among them; the
  remaining time has 30 added once for each Time Bonus among them; the freeze and the
  invincibility run until 5000 and 7000 after \<open>now\<close>, the reading of the clock, when a
  Freeze or an Invincible is among them, and are as before when none is. They are gone from
  the live set, whose other members stay in their order; a power-up whose cell is still
  Void is among those, and is not applied.
\<close>

theorem resolveFill_applies_captured_powerUps_once:
  assumes "wfGrid (grid s)"
    and "find (\<lambda>e. etype e = Boss) (enemies s) = Some boss"
    and "inGrid (fst (cellOf boss)) (snd (cellOf boss))"
    and "powerUpsInGrid s"
  shows "\<exists>s'.
      resolveFill now currentPercent s = Some s'
      \<and> powerUps s' = filter (\<lambda>p. getCell (grid s') (pux p) (puy p) \<noteq> CLAIMED) (powerUps s)
      \<and> events s' =
          events s @ replicate (length (capturedPowerUps (grid s') (powerUps s))) PlayClaim
          @ (if \<exists>c. hasVal (grid s) VOID c \<and> hasVal (grid s') CLAIMED c then [PlayClaim] else [])
      \<and> lives s' =
          lives s + int (length (filter (\<lambda>p. ptype p = EXTRA_LIFE) (capturedPowerUps (grid s') (powerUps s))))
      \<and> timeLeft s' =
          ((\<lambda>t. add64 t 30)
             ^^ length (filter (\<lambda>p. ptype p = TIME_BONUS) (capturedPowerUps (grid s') (powerUps s))))
            (timeLeft s)
      \<and> frozen s' =
          (if \<exists>p \<in> set (capturedPowerUps (grid s') (powerUps s)). ptype p = FREEZE
           then add64 now 5000 else frozen s)
      \<and> invincible s' =
          (if \<exists>p \<in> set (capturedPowerUps (grid s') (powerUps s)). ptype p = INVINCIBLE
           then add64 now 7000 else invincible s)
      \<and> (\<forall>p \<in> set (powerUps s).
            getCell (grid s) (pux p) (puy p) = VOID \<and> getCell (grid s') (pux p) (puy p) = CLAIMED \<longrightarrow>
              count_list (capturedPowerUps (grid s') (powerUps s)) p = count_list (powerUps s) p
              \<and> p \<in> set (capturedPowerUps (grid s') (powerUps s))
              \<and> p \<notin> set (powerUps s'))
      \<and> (\<forall>p \<in> set (powerUps s).
            getCell (grid s') (pux p) (puy p) = VOID \<longrightarrow>
              p \<notin> set (capturedPowerUps (grid s') (powerUps s)) \<and> p \<in> set (powerUps s'))"
proof -
  have row: "0 \<le> \<lfloor>ey boss\<rfloor>" "\<lfloor>ey boss\<rfloor> < GRID_HEIGHT"
    using assms(3) by (simp_all add: cellOf_def inGrid_def)
  have vc: "VOID \<noteq> CLAIMED" by (simp add: VOID_def CLAIMED_def)
  from resolveFill_wf [OF assms(1,2) row assms(4), of now currentPercent]
  obtain seed s' where rf: "resolveFill now currentPercent s = Some s'"
    and pt: "\<forall>x y. inGrid x y \<longrightarrow> getCell (grid s') x y =
                (if getCell (grid s) x y = VOID \<and> (x, y) \<notin> region (grid s) VOID seed then CLAIMED
                 else getCell (grid s) x y)"
    and pu: "powerUps s' = filter (\<lambda>p. getCell (grid s') (pux p) (puy p) \<noteq> CLAIMED) (powerUps s)"
    and st: "lives s' = lives (applyAll now (capturedPowerUps (grid s') (powerUps s)) s)"
      "timeLeft s' = timeLeft (applyAll now (capturedPowerUps (grid s') (powerUps s)) s)"
      "frozen s' = frozen (applyAll now (capturedPowerUps (grid s') (powerUps s)) s)"
      "invincible s' = invincible (applyAll now (capturedPowerUps (grid s') (powerUps s)) s)"
    and ev: "events s' = events (applyAll now (capturedPowerUps (grid s') (powerUps s)) s)
               @ (if card {c. hasVal (grid s) VOID c \<and> c \<notin> region (grid s) VOID seed} > 0
                  then [PlayClaim] else [])"
    unfolding capturedPowerUps_def by blast
  let ?cap = "capturedPowerUps (grid s') (powerUps s)"
  have A: "{c. hasVal (grid s) VOID c \<and> c \<notin> region (grid s) VOID seed}
             = {c. hasVal (grid s) VOID c \<and> hasVal (grid s') CLAIMED c}"
    using pt vc by (auto simp: hasVal_def)
  have "finite {c. hasVal (grid s) VOID c \<and> hasVal (grid s') CLAIMED c}"
    by (rule finite_subset [OF _ finite_hasVal [of "grid s" VOID]]) auto
  then have B: "card {c. hasVal (grid s) VOID c \<and> c \<notin> region (grid s) VOID seed} > 0
                  \<longleftrightarrow> (\<exists>c. hasVal (grid s) VOID c \<and> hasVal (grid s') CLAIMED c)"
    unfolding A by (auto simp: card_gt_0_iff)
  have e: "events s' = events s @ replicate (length ?cap) PlayClaim
          @ (if \<exists>c. hasVal (grid s) VOID c \<and> hasVal (grid s') CLAIMED c then [PlayClaim] else [])"
    unfolding ev applyAll_events B by simp
  have l: "lives s' = lives s + int (length (filter (\<lambda>p. ptype p = EXTRA_LIFE) ?cap))"
    unfolding st by (rule applyAll_lives)
  have t: "timeLeft s' = ((\<lambda>t. add64 t 30) ^^ length (filter (\<lambda>p. ptype p = TIME_BONUS) ?cap)) (timeLeft s)"
    unfolding st by (rule applyAll_timeLeft)
  have f: "frozen s' = (if \<exists>p \<in> set ?cap. ptype p = FREEZE then add64 now 5000 else frozen s)"
    unfolding st by (rule applyAll_frozen)
  have i: "invincible s' = (if \<exists>p \<in> set ?cap. ptype p = INVINCIBLE then add64 now 7000 else invincible s)"
    unfolding st by (rule applyAll_invincible)
  have once: "count_list ?cap p = count_list (powerUps s) p"
    if "getCell (grid s') (pux p) (puy p) = CLAIMED" for p
    unfolding capturedPowerUps_def using that by (rule count_list_filter)
  have c1: "\<forall>p \<in> set (powerUps s).
            getCell (grid s) (pux p) (puy p) = VOID \<and> getCell (grid s') (pux p) (puy p) = CLAIMED \<longrightarrow>
              count_list ?cap p = count_list (powerUps s) p \<and> p \<in> set ?cap \<and> p \<notin> set (powerUps s')"
    using once by (auto simp: pu capturedPowerUps_def)
  have c2: "\<forall>p \<in> set (powerUps s).
            getCell (grid s') (pux p) (puy p) = VOID \<longrightarrow> p \<notin> set ?cap \<and> p \<in> set (powerUps s')"
    using vc by (auto simp: pu capturedPowerUps_def)
  from rf pu e l t f i c1 c2 show ?thesis by blast
qed

lemma islandState_facts:
  shows "grid islandState = islandGrid" and "wfGrid islandGrid"
    and "find (\<lambda>e. etype e = Boss) (enemies islandState) = Some (bossAt (65 / 2) (99 / 4))"
    and "cellOf (bossAt (65 / 2) (99 / 4)) = (32, 24)"
    and "powerUpsInGrid islandState"
    and "powerUps islandState = [\<lparr>pid = 1, pux = 5, puy = 5, ptype = EXTRA_LIFE\<rparr>,
                                  \<lparr>pid = 2, pux = 32, puy = 24, ptype = FREEZE\<rparr>,
                                  \<lparr>pid = 3, pux = 34, puy = 26, ptype = TIME_BONUS\<rparr>]"
    and "inGrid 32 24" and "inGrid 5 5" and "inGrid 34 26"
    and "lives islandState = 3" and "timeLeft islandState = 90" and "events islandState = []"
    and "frozen islandState = 0" and "invincible islandState = 0"
  by (simp_all add: islandState_def stateOf_def islandGrid_def bossAt_def cellOf_def
      powerUpsInGrid_def inGrid_def GRID_WIDTH_def GRID_HEIGHT_def LEVEL_TIME_def)

lemma islandState_resolved:
  "\<exists>s'. resolveFill now pc islandState = Some s'
        \<and> getCell (grid s') 5 5 = CLAIMED \<and> getCell (grid s') 34 26 = CLAIMED
        \<and> getCell (grid s') 32 24 = VOID"
proof -
  let ?boss = "bossAt (65 / 2) (99 / 4)"
  note g = islandState_facts(1)
  have wf: "wfGrid (grid islandState)" by (simp add: islandState_facts)
  have row: "0 \<le> \<lfloor>ey ?boss\<rfloor>" "\<lfloor>ey ?boss\<rfloor> < GRID_HEIGHT"
    by (simp_all add: bossAt_def GRID_HEIGHT_def)
  from resolveFill_wf [OF wf islandState_facts(3) row islandState_facts(5), of now pc]
  obtain seed s' where
    seed: "seedOf islandGrid \<lfloor>ex ?boss\<rfloor> \<lfloor>ey ?boss\<rfloor> = Some seed"
    and pt: "\<forall>x y. inGrid x y \<longrightarrow> getCell (grid s') x y =
                (if getCell islandGrid x y = VOID \<and> (x, y) \<notin> region islandGrid VOID seed then CLAIMED
                 else getCell islandGrid x y)"
    and rf: "resolveFill now pc islandState = Some s'"
    unfolding g by blast
  have "seed = (32, 24)"
    using seed seedOf_wf [OF wf row, of "\<lfloor>ex ?boss\<rfloor>"]
    by (simp add: g bossAt_def islandGrid_void)
  then have reg: "region islandGrid VOID seed = {(32, 24), (33, 24), (33, 25)}"
    by (simp add: islandGrid_boss_region)
  have "getCell islandGrid 5 5 = VOID" "getCell islandGrid 34 26 = VOID" "getCell islandGrid 32 24 = VOID"
    using islandState_facts(7,8,9) by (simp_all add: islandGrid_def)
  with pt rf show ?thesis
    using islandState_facts(7,8,9) by (simp add: reg)
qed

theorem resolveFill_applies_captured_powerUps_once_witness:
  "wfGrid (grid islandState)
   \<and> find (\<lambda>e. etype e = Boss) (enemies islandState) = Some (bossAt (65 / 2) (99 / 4))
   \<and> cellOf (bossAt (65 / 2) (99 / 4)) = (32, 24) \<and> inGrid 32 24
   \<and> powerUpsInGrid islandState
   \<and> powerUps islandState = [\<lparr>pid = 1, pux = 5, puy = 5, ptype = EXTRA_LIFE\<rparr>,
                               \<lparr>pid = 2, pux = 32, puy = 24, ptype = FREEZE\<rparr>,
                               \<lparr>pid = 3, pux = 34, puy = 26, ptype = TIME_BONUS\<rparr>]
   \<and> getCell (grid islandState) 5 5 = VOID \<and> getCell (grid islandState) 32 24 = VOID
   \<and> getCell (grid islandState) 34 26 = VOID
   \<and> lives islandState = 3 \<and> timeLeft islandState = 90 \<and> events islandState = []
   \<and> frozen islandState = 0 \<and> invincible islandState = 0
   \<and> (\<exists>s'. resolveFill 1000 (1 / 2) islandState = Some s'
         \<and> getCell (grid s') 5 5 = CLAIMED \<and> getCell (grid s') 32 24 = VOID
         \<and> getCell (grid s') 34 26 = CLAIMED
         \<and> powerUps s' = [\<lparr>pid = 2, pux = 32, puy = 24, ptype = FREEZE\<rparr>]
         \<and> events s' = [PlayClaim, PlayClaim, PlayClaim]
         \<and> lives s' = 4
         \<and> timeLeft s' = 120
         \<and> frozen s' = 0 \<and> invincible s' = 0)"
proof -
  let ?boss = "bossAt (65 / 2) (99 / 4)"
  have wf: "wfGrid (grid islandState)" by (simp add: islandState_facts)
  have h3: "inGrid (fst (cellOf ?boss)) (snd (cellOf ?boss))"
    by (simp add: islandState_facts)
  have vc: "VOID \<noteq> CLAIMED" by (simp add: VOID_def CLAIMED_def)
  have v: "getCell (grid islandState) 5 5 = VOID" "getCell (grid islandState) 32 24 = VOID"
    "getCell (grid islandState) 34 26 = VOID"
    using islandState_facts(7,8,9) by (simp_all add: islandState_facts(1) islandGrid_def)
  have t: "add64 90 30 = 120"
    unfolding add64_def using rnd64_int [of 120] by simp
  from islandState_resolved [of 1000 "1 / 2"] obtain s0
    where s0: "resolveFill 1000 (1 / 2) islandState = Some s0"
      and c: "getCell (grid s0) 5 5 = CLAIMED" "getCell (grid s0) 32 24 = VOID"
        "getCell (grid s0) 34 26 = CLAIMED"
    by blast
  from resolveFill_applies_captured_powerUps_once
         [OF wf islandState_facts(3) h3 islandState_facts(5), of 1000 "1 / 2"]
  obtain s' where s': "resolveFill 1000 (1 / 2) islandState = Some s'"
    and pu: "powerUps s' = filter (\<lambda>p. getCell (grid s') (pux p) (puy p) \<noteq> CLAIMED) (powerUps islandState)"
    and ev: "events s' =
          events islandState
          @ replicate (length (capturedPowerUps (grid s') (powerUps islandState))) PlayClaim
          @ (if \<exists>c. hasVal (grid islandState) VOID c \<and> hasVal (grid s') CLAIMED c then [PlayClaim] else [])"
    and st: "lives s' =
          lives islandState
          + int (length (filter (\<lambda>p. ptype p = EXTRA_LIFE) (capturedPowerUps (grid s') (powerUps islandState))))"
      "timeLeft s' =
          ((\<lambda>t. add64 t 30)
             ^^ length (filter (\<lambda>p. ptype p = TIME_BONUS) (capturedPowerUps (grid s') (powerUps islandState))))
            (timeLeft islandState)"
      "frozen s' =
          (if \<exists>p \<in> set (capturedPowerUps (grid s') (powerUps islandState)). ptype p = FREEZE
           then add64 1000 5000 else frozen islandState)"
      "invincible s' =
          (if \<exists>p \<in> set (capturedPowerUps (grid s') (powerUps islandState)). ptype p = INVINCIBLE
           then add64 1000 7000 else invincible islandState)"
    by blast
  from s0 s' have eq: "s' = s0" by simp
  have cap: "capturedPowerUps (grid s0) (powerUps islandState)
               = [\<lparr>pid = 1, pux = 5, puy = 5, ptype = EXTRA_LIFE\<rparr>,
                  \<lparr>pid = 3, pux = 34, puy = 26, ptype = TIME_BONUS\<rparr>]"
    using c vc by (simp add: islandState_facts(6) capturedPowerUps_def)
  have some: "\<exists>c. hasVal (grid islandState) VOID c \<and> hasVal (grid s0) CLAIMED c"
    using v(1) c(1) islandState_facts(8) by (intro exI [of _ "(5, 5)"]) (simp add: hasVal_def)
  have r: "powerUps s' = [\<lparr>pid = 2, pux = 32, puy = 24, ptype = FREEZE\<rparr>]"
    using pu c vc unfolding eq by (simp add: islandState_facts(6))
  have e: "events s' = [PlayClaim, PlayClaim, PlayClaim]"
    using ev some unfolding eq cap by (simp add: islandState_facts(12))
  have l: "lives s' = 4"
    using st(1) unfolding eq cap by (simp add: islandState_facts(10))
  have tl: "timeLeft s' = 120"
    using st(2) unfolding eq cap by (simp add: islandState_facts(11) t)
  have fi: "frozen s' = 0" "invincible s' = 0"
    using st(3,4) unfolding eq cap by (simp_all add: islandState_facts(13,14))
  from s' c r e l tl fi have "\<exists>s'. resolveFill 1000 (1 / 2) islandState = Some s'
         \<and> getCell (grid s') 5 5 = CLAIMED \<and> getCell (grid s') 32 24 = VOID
         \<and> getCell (grid s') 34 26 = CLAIMED
         \<and> powerUps s' = [\<lparr>pid = 2, pux = 32, puy = 24, ptype = FREEZE\<rparr>]
         \<and> events s' = [PlayClaim, PlayClaim, PlayClaim]
         \<and> lives s' = 4
         \<and> timeLeft s' = 120
         \<and> frozen s' = 0 \<and> invincible s' = 0"
    unfolding eq by blast
  then show ?thesis
    using wf islandState_facts(3,4,5,6,7,10,11,12,13,14) v by blast
qed

subsection \<open>The tick\<close>

lemma jsRound_range:
  assumes "0 \<le> v" "v \<le> real_of_int n"
  shows "0 \<le> jsRound v" and "jsRound v \<le> n"
proof -
  show "0 \<le> jsRound v" using assms(1) by (simp add: jsRound_def)
  have "v + 1 / 2 < real_of_int (n + 1)" using assms(2) by simp
  then have "\<lfloor>v + 1 / 2\<rfloor> < n + 1" by (simp only: floor_less_iff)
  then show "jsRound v \<le> n" by (simp add: jsRound_def)
qed

lemma jsRound_inGrid:
  assumes "0 \<le> a" "a \<le> real_of_int (GRID_WIDTH - 1)" "0 \<le> b" "b \<le> real_of_int (GRID_HEIGHT - 1)"
  shows "inGrid (jsRound a) (jsRound b)"
  using jsRound_range [OF assms(1,2)] jsRound_range [OF assms(3,4)]
  by (simp add: inGrid_def)

lemma keepsClaimed_refl: "wfGrid g \<Longrightarrow> keepsClaimed g g"
  by (simp add: keepsClaimed_def)

lemma keepsClaimed_trans: "keepsClaimed g g' \<Longrightarrow> keepsClaimed g' g'' \<Longrightarrow> keepsClaimed g g''"
  by (simp add: keepsClaimed_def)

lemma keepsClaimed_wf: "keepsClaimed g g' \<Longrightarrow> wfGrid g'"
  by (simp add: keepsClaimed_def)

lemma owned_card:
  "owned g = int (card {c \<in> cells. getCell g (fst c) (snd c) = CLAIMED})"
proof -
  let ?I = "\<lambda>D (n::int). finite D \<and> n = int (card {c \<in> D. getCell g (fst c) (snd c) = CLAIMED})"
  have "?I cells (owned g)"
    unfolding owned_def
  proof (rule scanCells_rule [where I = ?I])
    show "?I {} 0" by simp
  next
    fix x y D and n :: int
    assume "(x, y) \<notin> D" and I: "?I D n"
    let ?C = "\<lambda>D. {c \<in> D. getCell g (fst c) (snd c) = CLAIMED}"
    have nin: "(x, y) \<notin> ?C D" using \<open>(x, y) \<notin> D\<close> by simp
    have fin: "finite (?C D)" using I by simp
    show "?I (insert (x, y) D) (if getCell g x y = CLAIMED then n + 1 else n)"
    proof (cases "getCell g x y = CLAIMED")
      case True
      then have "?C (insert (x, y) D) = insert (x, y) (?C D)" by auto
      then have "card (?C (insert (x, y) D)) = Suc (card (?C D))"
        using nin fin by simp
      with True I show ?thesis by simp
    next
      case False
      then have "?C (insert (x, y) D) = ?C D" by auto
      with False I show ?thesis by simp
    qed
  qed
  then show ?thesis by simp
qed

lemma owned_mono:
  assumes "keepsClaimed g g'"
  shows "owned g \<le> owned g'"
proof -
  have "{c \<in> cells. getCell g (fst c) (snd c) = CLAIMED} \<subseteq> {c \<in> cells. getCell g' (fst c) (snd c) = CLAIMED}"
    using assms by (auto simp: keepsClaimed_def cells_def)
  moreover have "finite {c \<in> cells. getCell g' (fst c) (snd c) = CLAIMED}"
    using finite_cells by simp
  ultimately show ?thesis
    unfolding owned_card by (simp add: card_mono)
qed

lemma convertTrail_cells:
  assumes wf: "wfGrid g"
  shows "\<exists>g'. convertTrail (g, False) = (g', \<exists>c \<in> cells. getCell g (fst c) (snd c) = TRAIL)
          \<and> wfGrid g'
          \<and> (\<forall>x y. inGrid x y \<longrightarrow>
                getCell g' x y = (if getCell g x y = TRAIL then CLAIMED else getCell g x y))"
proof -
  let ?I = "\<lambda>D (acc :: grid \<times> bool). case acc of (g', b) \<Rightarrow>
              wfGrid g' \<and> (b \<longleftrightarrow> (\<exists>c \<in> D. getCell g (fst c) (snd c) = TRAIL))
              \<and> (\<forall>x y. inGrid x y \<longrightarrow> getCell g' x y =
                    (if (x, y) \<in> D \<and> getCell g x y = TRAIL then CLAIMED else getCell g x y))"
  have "?I cells (convertTrail (g, False))"
    unfolding convertTrail_def
  proof (rule scanCells_rule [where I = ?I])
    show "?I {} (g, False)" using wf by simp
  next
    fix x y D and acc :: "grid \<times> bool"
    assume xy: "inGrid x y" "(x, y) \<notin> D" and I: "?I D acc"
    obtain g' b where acc: "acc = (g', b)" by (cases acc)
    from I xy have cur: "getCell g' x y = getCell g x y"
      by (simp add: acc)
    show "?I (insert (x, y) D) (case acc of (g, trailExists) \<Rightarrow>
             if getCell g x y = TRAIL then (setCell g x y CLAIMED, True) else acc)"
      using I xy cur by (auto simp: acc getCell_setCell)
  qed
  then show ?thesis
    by (cases "convertTrail (g, False)") (auto simp: cells_def)
qed


lemma rowAt_wf: "wfGrid g \<Longrightarrow> rowAt g y = (if 0 \<le> y \<and> y < GRID_HEIGHT then Some (g ! nat y) else None)"
  by (auto simp: rowAt_def wfGrid_def)

lemma seedOf_None: "wfGrid g \<Longrightarrow> seedOf g sx sy = None \<longleftrightarrow> \<not> (0 \<le> sy \<and> sy < GRID_HEIGHT)"
  by (auto simp: seedOf_def rowAt_wf split: option.splits)

lemma captureRegions_keeps:
  assumes wf: "wfGrid g" and cr: "captureRegions g boss = Some (g', n, pts)"
  shows "keepsClaimed g g'"
    and "\<forall>x y. inGrid x y \<longrightarrow> getCell g' x y = getCell g x y \<or> (getCell g x y = VOID \<and> getCell g' x y = CLAIMED)"
proof -
  have row: "0 \<le> \<lfloor>ey boss\<rfloor>" "\<lfloor>ey boss\<rfloor> < GRID_HEIGHT"
    using cr seedOf_None [OF wf, of "\<lfloor>ex boss\<rfloor>" "\<lfloor>ey boss\<rfloor>"]
    by (auto simp: captureRegions_def split: option.splits)
  from captureRegions_wf [OF wf row] cr obtain seed
    where wf': "wfGrid g'"
      and pt: "\<forall>x y. inGrid x y \<longrightarrow> getCell g' x y =
                (if getCell g x y = VOID \<and> (x, y) \<notin> region g VOID seed then CLAIMED
                 else getCell g x y)"
    by auto
  have vc: "VOID \<noteq> CLAIMED" by (simp add: VOID_def CLAIMED_def)
  show "keepsClaimed g g'"
    using wf' pt vc by (auto simp: keepsClaimed_def)
  show "\<forall>x y. inGrid x y \<longrightarrow> getCell g' x y = getCell g x y \<or> (getCell g x y = VOID \<and> getCell g' x y = CLAIMED)"
    using pt by auto
qed

lemma filterPowerUps_grid:
  "filterPowerUps now ps s = Some (kept, s') \<Longrightarrow> grid s' = grid s"
proof (induction ps arbitrary: s kept s')
  case Nil
  then show ?case by simp
next
  case (Cons p ps)
  then show ?case
    by (auto split: option.splits if_splits)
qed

lemma resolveFill_keeps:
  assumes wf: "wfGrid (grid s)" and rf: "resolveFill now pc s = Some s'"
  shows "keepsClaimed (grid s) (grid s')"
proof (cases "find (\<lambda>e. etype e = Boss) (enemies s)")
  case None
  with rf wf show ?thesis by (simp add: resolveFill_def keepsClaimed_refl)
next
  case (Some boss)
  with rf obtain g n pts kept s1
    where cr: "captureRegions (grid s) boss = Some (g, n, pts)"
      and fp: "filterPowerUps now (powerUps s) (s\<lparr>grid := g\<rparr>) = Some (kept, s1)"
      and s': "grid s' = grid s1"
    by (auto simp: resolveFill_def Let_def split: option.splits if_splits)
  from filterPowerUps_grid [OF fp] s' have "grid s' = g" by simp
  with captureRegions_keeps(1) [OF wf cr] show ?thesis by simp
qed

lemma finishCut_keeps:
  assumes wf: "wfGrid (grid s)" and fc: "finishCut now s = Some s'"
  shows "keepsClaimed (grid s) (grid s')"
proof -
  from convertTrail_cells [OF wf] obtain g
    where ct: "convertTrail (grid s, False) = (g, \<exists>c \<in> cells. getCell (grid s) (fst c) (snd c) = TRAIL)"
      and wfg: "wfGrid g"
      and pt: "\<forall>x y. inGrid x y \<longrightarrow>
                getCell g x y = (if getCell (grid s) x y = TRAIL then CLAIMED else getCell (grid s) x y)"
    by blast
  have k1: "keepsClaimed (grid s) g"
    using wfg pt by (auto simp: keepsClaimed_def)
  show ?thesis
  proof (cases "\<exists>c \<in> cells. getCell (grid s) (fst c) (snd c) = TRAIL")
    case True
    with fc ct have "resolveFill now (div64 (real_of_int (owned g)) (real_of_int (GRID_WIDTH * GRID_HEIGHT)))
                       (s\<lparr>grid := g\<rparr>) = Some s'"
      by (simp add: finishCut_def)
    from resolveFill_keeps [OF _ this] wfg have "keepsClaimed g (grid s')" by simp
    with k1 show ?thesis by (rule keepsClaimed_trans)
  next
    case False
    with fc ct have "s' = s\<lparr>grid := g\<rparr>" by (simp add: finishCut_def)
    with k1 show ?thesis by simp
  qed
qed

lemma setCell_keeps:
  assumes "wfGrid g" "inGrid x y" "getCell g x y \<noteq> CLAIMED"
  shows "keepsClaimed g (setCell g x y v)"
  using assms by (auto simp: keepsClaimed_def getCell_setCell)

lemma movePlayer_keeps:
  assumes wf: "wfGrid (grid s)" and mp: "movePlayer now keys s = Some s'"
  shows "keepsClaimed (grid s) (grid s')"
proof -
  obtain dx dy where kd: "keyDir keys = (dx, dy)" by (cases "keyDir keys")
  let ?s0 = "if dx \<noteq> 0 \<or> dy \<noteq> 0 then s\<lparr>player := (player s)\<lparr>dir := (dx, dy)\<rparr>\<rparr> else s"
  let ?nx = "add64 (plx (player s)) (mul64 (real_of_int dx) PLAYER_SPEED)"
  let ?ny = "add64 (ply (player s)) (mul64 (real_of_int dy) PLAYER_SPEED)"
  have g0: "grid ?s0 = grid s" by simp
  note refl = keepsClaimed_refl [OF wf]
  show ?thesis
  proof (cases "(dx \<noteq> 0 \<or> dy \<noteq> 0) \<and> 0 \<le> ?nx \<and> ?nx \<le> real_of_int (GRID_WIDTH - 1)
                 \<and> 0 \<le> ?ny \<and> ?ny \<le> real_of_int (GRID_HEIGHT - 1)")
    case False
    with mp kd have "grid s' = grid s"
      by (auto simp: movePlayer_def Let_def split: if_splits)
    with refl show ?thesis by simp
  next
    case True
    then have ing: "inGrid (jsRound ?nx) (jsRound ?ny)"
      by (intro jsRound_inGrid) auto
    show ?thesis
    proof (cases "getCell (grid s) (jsRound ?nx) (jsRound ?ny) = CLAIMED")
      case safe: True
      let ?s1 = "s\<lparr>player := (player s)\<lparr>dir := (dx, dy), plx := ?nx, ply := ?ny\<rparr>\<rparr>"
      from mp kd True safe have "finishCut now ?s1 = Some s' \<or> s' = ?s1"
        by (auto simp: movePlayer_def Let_def split: if_splits)
      then show ?thesis
        using finishCut_keeps [of ?s1 now s'] wf refl by auto
    next
      case unsafe: False
      from mp kd True unsafe
      have "grid s' = setCell (grid s) (jsRound ?nx) (jsRound ?ny) TRAIL \<or> grid s' = grid s"
        by (auto simp: movePlayer_def Let_def split: if_splits)
      then show ?thesis
        using setCell_keeps [OF wf ing unsafe, of TRAIL] refl by auto
    qed
  qed
qed


lemma handleDeath_grid: "grid (handleDeath s) = clearTrail (grid s)"
  by (simp add: handleDeath_def Let_def onGameOver_def)

lemma handleDeath_keeps: "wfGrid (grid s) \<Longrightarrow> keepsClaimed (grid s) (grid (handleDeath s))"
  using clearTrail_cells [of "grid s"]
  by (auto simp: handleDeath_grid keepsClaimed_def CLAIMED_def TRAIL_def)

lemma collide_cases:
  assumes "collide now e s = Some s'"
  shows "s' = s \<or> s' = handleDeath s"
  using assms by (auto simp: collide_def Let_def split: option.splits if_splits)

lemma collide_keeps:
  assumes "wfGrid (grid s)" "collide now e s = Some s'"
  shows "keepsClaimed (grid s) (grid s')"
  using collide_cases [OF assms(2)] handleDeath_keeps [OF assms(1)] keepsClaimed_refl [OF assms(1)]
  by auto

lemma stepEnemies_keeps:
  assumes "wfGrid (grid s)" "stepEnemies now es s = Some (es', s')"
  shows "keepsClaimed (grid s) (grid s')"
  using assms
proof (induction es arbitrary: s es' s')
  case Nil
  then show ?case by (simp add: keepsClaimed_refl)
next
  case (Cons e es)
  from Cons.prems(2) obtain s1 es1
    where c: "collide now (moveEnemy (grid s) e) s = Some s1"
      and r: "stepEnemies now es s1 = Some (es1, s')"
    by (auto simp: Let_def split: option.splits)
  have k1: "keepsClaimed (grid s) (grid s1)"
    by (rule collide_keeps [OF Cons.prems(1) c])
  have "keepsClaimed (grid s1) (grid s')"
    by (rule Cons.IH [OF keepsClaimed_wf [OF k1] r])
  with k1 show ?case by (rule keepsClaimed_trans)
qed

lemma spawnPowerUp_grid [simp]: "grid (spawnPowerUp now r s) = grid s"
  by (simp add: spawnPowerUp_def Let_def)

lemma winCheck_grid [simp]: "grid (winCheck s) = grid s"
  by (simp add: winCheck_def Let_def onGameOver_def)

lemma update_cases:
  assumes "update inp s = Some s'"
  obtains (timeout) "sub64 (timeLeft s) (inDt inp) \<le> 0"
      and "s' = onGameOver False (s\<lparr>timeLeft := sub64 (timeLeft s) (inDt inp)\<rparr>)"
  | (frozen) s3 where "\<not> sub64 (timeLeft s) (inDt inp) \<le> 0" and "inNow inp < frozen s"
      and "movePlayer (inNow inp) (inKeys inp)
             (spawnPowerUp (inNow inp) (inRandom inp) (s\<lparr>timeLeft := sub64 (timeLeft s) (inDt inp)\<rparr>)) = Some s3"
      and "s' = winCheck (s3\<lparr>enemies := enemies s3\<rparr>)"
  | (moving) s3 es s4 where "\<not> sub64 (timeLeft s) (inDt inp) \<le> 0" and "\<not> inNow inp < frozen s"
      and "movePlayer (inNow inp) (inKeys inp)
             (spawnPowerUp (inNow inp) (inRandom inp) (s\<lparr>timeLeft := sub64 (timeLeft s) (inDt inp)\<rparr>)) = Some s3"
      and "stepEnemies (inNow inp) (enemies s3) s3 = Some (es, s4)"
      and "s' = winCheck (s4\<lparr>enemies := es\<rparr>)"
proof (cases "sub64 (timeLeft s) (inDt inp) \<le> 0")
  case True
  with assms timeout show ?thesis by (simp add: update_def Let_def)
next
  case False
  with assms obtain s3
    where mp: "movePlayer (inNow inp) (inKeys inp)
             (spawnPowerUp (inNow inp) (inRandom inp) (s\<lparr>timeLeft := sub64 (timeLeft s) (inDt inp)\<rparr>)) = Some s3"
    by (auto simp: update_def Let_def split: option.splits)
  show ?thesis
  proof (cases "inNow inp < frozen s")
    case True
    with assms False mp frozen show ?thesis by (simp add: update_def Let_def)
  next
    case nf: False
    with assms False mp obtain es s4
      where "stepEnemies (inNow inp) (enemies s3) s3 = Some (es, s4)" "s' = winCheck (s4\<lparr>enemies := es\<rparr>)"
      by (auto simp: update_def Let_def split: option.splits)
    with False nf mp moving show ?thesis by blast
  qed
qed

lemma update_keeps:
  assumes wf: "wfGrid (grid s)" and up: "update inp s = Some s'"
  shows "keepsClaimed (grid s) (grid s')"
  using up
proof (cases rule: update_cases)
  case timeout
  with wf show ?thesis by (simp add: keepsClaimed_refl onGameOver_def)
next
  case (frozen s3)
  with movePlayer_keeps [OF _ frozen(3)] wf show ?thesis by simp
next
  case (moving s3 es s4)
  have k1: "keepsClaimed (grid s) (grid s3)"
    using movePlayer_keeps [OF _ moving(3)] wf by simp
  have "keepsClaimed (grid s3) (grid s4)"
    by (rule stepEnemies_keeps [OF keepsClaimed_wf [OF k1] moving(4)])
  with k1 have "keepsClaimed (grid s) (grid s4)" by (rule keepsClaimed_trans)
  with moving(5) show ?thesis by simp
qed

text \<open>
  C6. On a grid of the level's shape, no operation of the simulation lowers the number of
  Claimed cells, and so the owned fraction: not a whole tick, not the player's movement
  with its trail deposit and cut resolution, not a resolution on its own, and not a death
  with its clearing of the trail. Every cell that is Claimed stays Claimed.
\<close>

theorem owned_never_decreases:
  assumes "wfGrid (grid s)"
  shows "(\<forall>s'. update inp s = Some s' \<longrightarrow>
            keepsClaimed (grid s) (grid s') \<and> owned (grid s) \<le> owned (grid s')
            \<and> real_of_int (owned (grid s)) / real_of_int (GRID_WIDTH * GRID_HEIGHT)
                \<le> real_of_int (owned (grid s')) / real_of_int (GRID_WIDTH * GRID_HEIGHT))
       \<and> (\<forall>s'. movePlayer now keys s = Some s' \<longrightarrow>
            keepsClaimed (grid s) (grid s') \<and> owned (grid s) \<le> owned (grid s'))
       \<and> (\<forall>s'. resolveFill now currentPercent s = Some s' \<longrightarrow>
            keepsClaimed (grid s) (grid s') \<and> owned (grid s) \<le> owned (grid s'))
       \<and> keepsClaimed (grid s) (grid (handleDeath s))
       \<and> owned (grid s) \<le> owned (grid (handleDeath s))"
proof -
  have pos: "0 < real_of_int (GRID_WIDTH * GRID_HEIGHT)"
    by (simp add: GRID_WIDTH_def GRID_HEIGHT_def)
  have frac: "real_of_int a / real_of_int (GRID_WIDTH * GRID_HEIGHT)
                \<le> real_of_int b / real_of_int (GRID_WIDTH * GRID_HEIGHT)" if "a \<le> b" for a b
    using that pos by (simp add: divide_right_mono)
  show ?thesis
    using update_keeps [OF assms] movePlayer_keeps [OF assms] resolveFill_keeps [OF assms]
      handleDeath_keeps [OF assms] owned_mono frac
    by blast
qed


lemma spawnCell_eq: "spawnCell = (32, 0)"
  by (simp add: spawnCell_def spawnPlayer_def jsRound_def GRID_WIDTH_def)

lemma inGrid_spawnCell: "inGrid (fst spawnCell) (snd spawnCell)"
  by (simp add: spawnCell_eq inGrid_def GRID_WIDTH_def GRID_HEIGHT_def)

lemma handleDeath_respawned:
  assumes "wfGrid (grid s)" "getCell (grid s) (fst spawnCell) (snd spawnCell) = CLAIMED"
  shows "respawned (handleDeath s)"
proof -
  have "player (handleDeath s) = spawnPlayer"
    by (simp add: handleDeath_def Let_def onGameOver_def)
  moreover have "VOID \<noteq> TRAIL" "CLAIMED \<noteq> TRAIL"
    by (simp_all add: VOID_def TRAIL_def CLAIMED_def)
  ultimately show ?thesis
    using clearTrail_cells [OF assms(1)] assms(2) inGrid_spawnCell
    by (auto simp: respawned_def handleDeath_grid)
qed

lemma collide_respawned:
  assumes "respawned s"
  shows "collide now e s = Some s"
proof -
  from assms have wf: "wfGrid (grid s)" and pl: "player s = spawnPlayer"
    and sc: "getCell (grid s) 32 0 = CLAIMED"
    and nt: "\<And>x y. inGrid x y \<Longrightarrow> getCell (grid s) x y \<noteq> TRAIL"
    by (auto simp: respawned_def spawnCell_eq)
  have r: "rowAt (grid s) 0 = Some (grid s ! 0)"
    using wf by (simp add: rowAt_wf GRID_HEIGHT_def)
  have "cellOpt (grid s) 32 0 = Some CLAIMED"
    using cellOpt_wf [OF wf, of 32 0] sc by (simp add: inGrid_def GRID_WIDTH_def GRID_HEIGHT_def)
  then have e: "elemAt (grid s ! 0) 32 = Some CLAIMED"
    by (simp add: cellOpt_def r)
  have ht: "\<not> (\<lfloor>ex e\<rfloor> \<ge> 0 \<and> \<lfloor>ex e\<rfloor> < GRID_WIDTH \<and> \<lfloor>ey e\<rfloor> \<ge> 0 \<and> \<lfloor>ey e\<rfloor> < GRID_HEIGHT
              \<and> getCell (grid s) \<lfloor>ex e\<rfloor> \<lfloor>ey e\<rfloor> = TRAIL)"
    using nt [of "\<lfloor>ex e\<rfloor>" "\<lfloor>ey e\<rfloor>"] by (auto simp: inGrid_def)
  have js: "jsRound (plx spawnPlayer) = 32" "jsRound (ply spawnPlayer) = 0"
    using spawnCell_eq by (simp_all add: spawnCell_def)
  show ?thesis
    using ht by (auto simp: collide_def Let_def pl js r e)
qed

lemma stepEnemies_respawned:
  "respawned s \<Longrightarrow> stepEnemies now es s = Some (map (moveEnemy (grid s)) es, s)"
  by (induction es) (simp_all add: collide_respawned)

lemma handleDeath_counts:
  "deaths (handleDeath s) = deaths s + 1" "lives (handleDeath s) = lives s - 1"
  by (simp_all add: handleDeath_def Let_def onGameOver_def deaths_def)

lemma stepEnemies_one_death:
  assumes "wfGrid (grid s)" "getCell (grid s) (fst spawnCell) (snd spawnCell) = CLAIMED"
    and "stepEnemies now es s = Some (es', s')"
  shows "s' = s \<or> s' = handleDeath s"
  using assms
proof (induction es arbitrary: es')
  case Nil
  then show ?case by simp
next
  case (Cons e es)
  from Cons.prems(3) obtain s1 es1
    where c: "collide now (moveEnemy (grid s) e) s = Some s1"
      and r: "stepEnemies now es s1 = Some (es1, s')"
    by (auto simp: Let_def split: option.splits)
  from collide_cases [OF c] show ?case
  proof
    assume "s1 = s"
    with r Cons.IH [OF Cons.prems(1,2)] show ?thesis by simp
  next
    assume s1: "s1 = handleDeath s"
    have "respawned s1" unfolding s1 by (rule handleDeath_respawned [OF Cons.prems(1,2)])
    from stepEnemies_respawned [OF this, of now es] r have "s' = s1" by simp
    with s1 show ?thesis by simp
  qed
qed

lemma applyPowerUp_counts:
  "deaths (applyPowerUp now t s) = deaths s" "lives s \<le> lives (applyPowerUp now t s)"
  by (cases t; simp add: applyPowerUp_def Let_def deaths_def)+

lemma filterPowerUps_counts:
  "filterPowerUps now ps s = Some (kept, s') \<Longrightarrow> deaths s' = deaths s \<and> lives s \<le> lives s'"
proof (induction ps arbitrary: s kept s')
  case Nil
  then show ?case by simp
next
  case (Cons p ps)
  show ?case
  proof (cases "cellOpt (grid s) (pux p) (puy p) = Some CLAIMED")
    case True
    with Cons.prems have "filterPowerUps now ps (applyPowerUp now (ptype p) s) = Some (kept, s')"
      by (auto simp: cellOpt_def split: option.splits)
    from Cons.IH [OF this] show ?thesis
      using applyPowerUp_counts(1) [of now "ptype p" s] applyPowerUp_counts(2) [of s now "ptype p"]
      by simp
  next
    case False
    with Cons.prems obtain k where "filterPowerUps now ps s = Some (k, s')"
      by (auto simp: cellOpt_def split: option.splits if_splits)
    from Cons.IH [OF this] show ?thesis .
  qed
qed

lemma resolveFill_counts:
  assumes "resolveFill now pc s = Some s'"
  shows "deaths s' = deaths s \<and> lives s \<le> lives s'"
proof (cases "find (\<lambda>e. etype e = Boss) (enemies s)")
  case None
  with assms show ?thesis by (simp add: resolveFill_def)
next
  case (Some boss)
  with assms obtain g n pts kept s1
    where fp: "filterPowerUps now (powerUps s) (s\<lparr>grid := g\<rparr>) = Some (kept, s1)"
      and s': "deaths s' = deaths s1" "lives s' = lives s1"
    by (auto simp: resolveFill_def Let_def deaths_def split: option.splits if_splits)
  from filterPowerUps_counts [OF fp] s' show ?thesis by (simp add: deaths_def)
qed

lemma movePlayer_counts:
  assumes "movePlayer now keys s = Some s'"
  shows "deaths s' = deaths s \<and> lives s \<le> lives s'"
proof -
  obtain dx dy where kd: "keyDir keys = (dx, dy)" by (cases "keyDir keys")
  have fc: "deaths t' = deaths t \<and> lives t \<le> lives t'" if "finishCut now t = Some t'" for t t'
  proof -
    obtain g b where ct: "convertTrail (grid t, False) = (g, b)"
      by (cases "convertTrail (grid t, False)")
    with that have "(\<exists>pc. resolveFill now pc (t\<lparr>grid := g\<rparr>) = Some t') \<or> t' = t\<lparr>grid := g\<rparr>"
      by (auto simp: finishCut_def split: if_splits)
    then show ?thesis
      using resolveFill_counts [of now _ "t\<lparr>grid := g\<rparr>" t'] by (auto simp: deaths_def)
  qed
  from assms kd show ?thesis
    by (auto simp: movePlayer_def Let_def deaths_def split: if_splits dest!: fc)
qed


lemma deaths_frame [simp]:
  "deaths (s\<lparr>timeLeft := tv\<rparr>) = deaths s" "deaths (s\<lparr>enemies := es\<rparr>) = deaths s"
  "deaths (s\<lparr>grid := g\<rparr>) = deaths s" "deaths (onGameOver w s) = deaths s"
  by (simp_all add: deaths_def onGameOver_def)

lemma winCheck_counts [simp]: "deaths (winCheck s) = deaths s" "lives (winCheck s) = lives s"
  by (simp_all add: winCheck_def Let_def onGameOver_def deaths_def)

lemma spawnPowerUp_counts [simp]:
  "deaths (spawnPowerUp now r s) = deaths s" "lives (spawnPowerUp now r s) = lives s"
  by (simp_all add: spawnPowerUp_def Let_def deaths_def)

text \<open>
  C10. In a tick on a grid of the level's shape whose spawn cell is Claimed, as the border
  always is, \<open>handleDeath\<close> runs at most once: the first death puts the player on the spawn
  cell and clears the trail, and after that neither the trail test nor the proximity test
  of any later enemy in the same \<open>forEach\<close> can succeed. So the tick adds at most one
  death and takes at most one life.
\<close>

theorem at_most_one_death_per_tick:
  assumes "wfGrid (grid s)"
    and "getCell (grid s) (fst spawnCell) (snd spawnCell) = CLAIMED"
    and "update inp s = Some s'"
  shows "deaths s' \<le> deaths s + 1 \<and> lives s - 1 \<le> lives s'
         \<and> (deaths s' = deaths s + 1 \<longrightarrow> respawned s')"
  using assms(3)
proof (cases rule: update_cases)
  case timeout
  then show ?thesis by (simp add: onGameOver_def deaths_def)
next
  case (frozen s3)
  from movePlayer_counts [OF frozen(3)] frozen(4) show ?thesis by simp
next
  case (moving s3 es s4)
  let ?s2 = "spawnPowerUp (inNow inp) (inRandom inp) (s\<lparr>timeLeft := sub64 (timeLeft s) (inDt inp)\<rparr>)"
  have c3: "deaths s3 = deaths s" "lives s \<le> lives s3"
    using movePlayer_counts [OF moving(3)] by simp_all
  have k: "keepsClaimed (grid s) (grid s3)"
    using movePlayer_keeps [OF _ moving(3)] assms(1) by simp
  then have wf3: "wfGrid (grid s3)"
    and sc3: "getCell (grid s3) (fst spawnCell) (snd spawnCell) = CLAIMED"
    using assms(2) inGrid_spawnCell by (auto simp: keepsClaimed_def)
  from stepEnemies_one_death [OF wf3 sc3 moving(4)] show ?thesis
  proof
    assume "s4 = s3"
    with c3 moving(5) show ?thesis by simp
  next
    assume s4: "s4 = handleDeath s3"
    have "respawned (handleDeath s3)" by (rule handleDeath_respawned [OF wf3 sc3])
    then have "respawned s'"
      unfolding moving(5) s4 by (simp add: respawned_def winCheck_def Let_def onGameOver_def)
    with c3 moving(5) s4 handleDeath_counts [of s3] show ?thesis
      by simp
  qed
qed



lemma player_cell_read:
  assumes "wfGrid (grid s)" "playerInField s"
  shows "rowAt (grid s) (jsRound (ply (player s))) = Some (grid s ! nat (jsRound (ply (player s))))"
    and "elemAt (grid s ! nat (jsRound (ply (player s)))) (jsRound (plx (player s)))
           = Some (getCell (grid s) (jsRound (plx (player s))) (jsRound (ply (player s))))"
    and "inGrid (jsRound (plx (player s))) (jsRound (ply (player s)))"
proof -
  show ing: "inGrid (jsRound (plx (player s))) (jsRound (ply (player s)))"
    using assms(2) by (intro jsRound_inGrid) (auto simp: playerInField_def)
  then show r: "rowAt (grid s) (jsRound (ply (player s))) = Some (grid s ! nat (jsRound (ply (player s))))"
    using assms(1) by (simp add: rowAt_wf inGrid_def)
  show "elemAt (grid s ! nat (jsRound (ply (player s)))) (jsRound (plx (player s)))
           = Some (getCell (grid s) (jsRound (plx (player s))) (jsRound (ply (player s))))"
    using cellOpt_wf [OF assms(1), of "jsRound (plx (player s))" "jsRound (ply (player s))"] ing
    by (simp add: cellOpt_def r)
qed

lemma collide_hit:
  assumes "wfGrid (grid s)" "playerInField s"
    and "inGrid \<lfloor>ex e\<rfloor> \<lfloor>ey e\<rfloor>" "getCell (grid s) \<lfloor>ex e\<rfloor> \<lfloor>ey e\<rfloor> = TRAIL"
    and "\<not> now < invincible s"
  shows "collide now e s = Some (handleDeath s)"
  using assms(3-5) player_cell_read(1) [OF assms(1,2)]
  by (simp add: collide_def Let_def inGrid_def)

lemma sqrt_ge_iff_sq: "0 \<le> b \<Longrightarrow> b \<le> sqrt a \<longleftrightarrow> b\<^sup>2 \<le> a"
  by (metis real_le_rsqrt real_sqrt_le_iff real_sqrt_abs abs_of_nonneg)

lemma collide_far:
  assumes "wfGrid (grid s)" "playerInField s"
    and "\<not> (inGrid \<lfloor>ex e\<rfloor> \<lfloor>ey e\<rfloor> \<and> getCell (grid s) \<lfloor>ex e\<rfloor> \<lfloor>ey e\<rfloor> = TRAIL)"
    and "0 \<le> add64 (radius e) (1 / 2)"
    and "(add64 (radius e) (1 / 2))\<^sup>2
           \<le> (sub64 (plx (player s)) (ex e))\<^sup>2 + (sub64 (ply (player s)) (ey e))\<^sup>2"
  shows "collide now e s = Some s"
proof -
  have "add64 (radius e) (1 / 2)
          \<le> sqrt ((sub64 (plx (player s)) (ex e))\<^sup>2 + (sub64 (ply (player s)) (ey e))\<^sup>2)"
    using assms(4,5) by (simp only: sqrt_ge_iff_sq)
  then show ?thesis
    using assms(3) player_cell_read(1) [OF assms(1,2)]
    by (auto simp: collide_def Let_def inGrid_def)
qed


lemma moveEnemy_position [simp]:
  "ex (moveEnemy g e) = add64 (ex e) (vx e)" "ey (moveEnemy g e) = add64 (ey e) (vy e)"
  "radius (moveEnemy g e) = radius e" "etype (moveEnemy g e) = etype e"
  by (simp_all add: moveEnemy_def Let_def)


lemma trailGrid_cells:
  "inGrid x y \<Longrightarrow> getCell trailGrid x y =
     (if isBorder x y then CLAIMED else if x = 5 \<and> y \<le> 3 then TRAIL else VOID)"
  by (simp add: trailGrid_def)

lemma cuttingState_facts:
  shows "grid cuttingState = trailGrid" and "wfGrid trailGrid"
    and "player cuttingState = \<lparr>plx = 5, ply = 27 / 8, dir = (0, 1)\<rparr>"
    and "isCuttingMode cuttingState" and "lives cuttingState = 2"
    and "playerInField cuttingState"
    and "getCell trailGrid (fst spawnCell) (snd spawnCell) = CLAIMED"
    and "timeLeft cuttingState = 90" and "frozen cuttingState = 0" and "invincible cuttingState = 0"
  by (simp_all add: cuttingState_def stateOf_def trailGrid_def playerInField_def spawnCell_eq
      inGrid_def isBorder_def GRID_WIDTH_def GRID_HEIGHT_def LEVEL_TIME_def)

lemma hunted_sums:
  shows "add64 32 (5404319552844595 / 36028797018963968) = 4524710250623795 / 140737488355328"
    and "add64 24 (5404319552844595 / 36028797018963968) = 3398810343781171 / 140737488355328"
    and "sub64 5 (4524710250623795 / 140737488355328) = - (3821022808847155 / 140737488355328)"
    and "sub64 (27 / 8) (3398810343781171 / 140737488355328) = - (2923821320581939 / 140737488355328)"
    and "add64 (7 / 2) (1 / 2) = 4"
    and "add64 (41 / 8) (3602879701896397 / 18014398509481984) = 5995417003936973 / 1125899906842624"
    and "add64 (15 / 8) (3602879701896397 / 18014398509481984) = 2336242306698445 / 1125899906842624"
    and "sub64 90 (1 / 64) = 5759 / 64"
proof -
  show "add64 32 (5404319552844595 / 36028797018963968) = 4524710250623795 / 140737488355328"
    unfolding add64_def by (rule rnd64_eval [of 5 _ 4524710250623795]) (simp_all add: pow2_def)
  show "add64 24 (5404319552844595 / 36028797018963968) = 3398810343781171 / 140737488355328"
    unfolding add64_def by (rule rnd64_eval [of 4 _ 6797620687562342]) (simp_all add: pow2_def)
  show "sub64 5 (4524710250623795 / 140737488355328) = - (3821022808847155 / 140737488355328)"
    unfolding sub64_def by (rule rnd64_eval [of 4 _ "- 7642045617694310"]) (simp_all add: pow2_def)
  show "sub64 (27 / 8) (3398810343781171 / 140737488355328) = - (2923821320581939 / 140737488355328)"
    unfolding sub64_def by (rule rnd64_eval [of 4 _ "- 5847642641163878"]) (simp_all add: pow2_def)
  show "add64 (7 / 2) (1 / 2) = 4"
    unfolding add64_def by (rule rnd64_eval [of 2 _ 4503599627370496]) (simp_all add: pow2_def)
  show "add64 (41 / 8) (3602879701896397 / 18014398509481984) = 5995417003936973 / 1125899906842624"
    unfolding add64_def by (rule rnd64_eval [of 2 _ 5995417003936973]) (simp_all add: pow2_def)
  show "add64 (15 / 8) (3602879701896397 / 18014398509481984) = 2336242306698445 / 1125899906842624"
    unfolding add64_def by (rule rnd64_eval [of 1 _ 4672484613396890]) (simp_all add: pow2_def)
  show "sub64 90 (1 / 64) = 5759 / 64"
    unfolding sub64_def by (rule rnd64_eval [of 6 _ 6332087464361984]) (simp_all add: pow2_def)
qed

lemma hunted_tick:
  "\<exists>s'. update idleInput huntedState = Some s'
        \<and> deaths s' = deaths huntedState + 1 \<and> lives s' = lives huntedState - 1"
proof -
  let ?s1 = "huntedState\<lparr>timeLeft := sub64 (timeLeft huntedState) (inDt idleInput)\<rparr>"
  let ?boss = "bossAt 32 24" and ?m1 = "minionAt (41 / 8) (15 / 8)" and ?m2 = "minionAt (41 / 8) (7 / 8)"
  have g: "grid ?s1 = trailGrid" and wf: "wfGrid (grid ?s1)" and pf: "playerInField ?s1"
    and pl: "player ?s1 = \<lparr>plx = 5, ply = 27 / 8, dir = (0, 1)\<rparr>"
    and inv: "invincible ?s1 = 0" and en: "enemies ?s1 = [?boss, ?m1, ?m2]"
    using cuttingState_facts by (simp_all add: huntedState_def playerInField_def)
  have sc: "getCell (grid ?s1) (fst spawnCell) (snd spawnCell) = CLAIMED"
    using cuttingState_facts(7) by (simp add: g)
  have sp: "spawnPowerUp (inNow idleInput) (inRandom idleInput) ?s1 = ?s1"
    by (simp add: spawnPowerUp_def idleInput_def noSpawn_def spawn_chance_val)
  have mp: "movePlayer (inNow idleInput) (inKeys idleInput) ?s1 = Some ?s1"
    by (simp add: movePlayer_def keyDir_def idleInput_def)
  have c0: "collide 1000 (moveEnemy trailGrid ?boss) ?s1 = Some ?s1"
  proof (rule collide_far [OF wf pf])
    have "inGrid 32 24" by (simp add: inGrid_def GRID_WIDTH_def GRID_HEIGHT_def)
    then have "getCell trailGrid 32 24 = VOID"
      by (simp add: trailGrid_cells isBorder_def GRID_WIDTH_def GRID_HEIGHT_def)
    then show "\<not> (inGrid \<lfloor>ex (moveEnemy trailGrid ?boss)\<rfloor> \<lfloor>ey (moveEnemy trailGrid ?boss)\<rfloor>
                  \<and> getCell (grid ?s1) \<lfloor>ex (moveEnemy trailGrid ?boss)\<rfloor> \<lfloor>ey (moveEnemy trailGrid ?boss)\<rfloor> = TRAIL)"
      by (simp add: g bossAt_def BOSS_SPEED_val hunted_sums VOID_def TRAIL_def)
  qed (simp_all add: pl bossAt_def BOSS_SPEED_val hunted_sums power2_eq_square)
  have c1: "collide 1000 (moveEnemy trailGrid ?m1) ?s1 = Some (handleDeath ?s1)"
  proof (rule collide_hit [OF wf pf])
    have c: "\<lfloor>ex (moveEnemy trailGrid ?m1)\<rfloor> = 5" "\<lfloor>ey (moveEnemy trailGrid ?m1)\<rfloor> = 2"
      by (simp_all add: minionAt_def ENEMY_SPEED_val hunted_sums)
    show i: "inGrid \<lfloor>ex (moveEnemy trailGrid ?m1)\<rfloor> \<lfloor>ey (moveEnemy trailGrid ?m1)\<rfloor>"
      unfolding c by (simp add: inGrid_def GRID_WIDTH_def GRID_HEIGHT_def)
    show "getCell (grid ?s1) \<lfloor>ex (moveEnemy trailGrid ?m1)\<rfloor> \<lfloor>ey (moveEnemy trailGrid ?m1)\<rfloor> = TRAIL"
      using i unfolding c g
      by (simp add: trailGrid_cells isBorder_def GRID_WIDTH_def GRID_HEIGHT_def)
  qed (simp add: inv)
  have rs: "respawned (handleDeath ?s1)"
    by (rule handleDeath_respawned [OF wf sc])
  have se: "stepEnemies 1000 (enemies ?s1) ?s1 =
      Some ([moveEnemy trailGrid ?boss, moveEnemy trailGrid ?m1,
             moveEnemy (grid (handleDeath ?s1)) ?m2], handleDeath ?s1)"
    using c0 c1 stepEnemies_respawned [OF rs, of 1000 "[?m2]"]
    by (simp add: en g)
  have tl: "\<not> timeLeft ?s1 \<le> 0" "\<not> inNow idleInput < frozen ?s1"
    using cuttingState_facts(8,9) by (simp_all add: huntedState_def idleInput_def hunted_sums)
  have "update idleInput huntedState =
      Some (winCheck ((handleDeath ?s1)\<lparr>enemies := [moveEnemy trailGrid ?boss, moveEnemy trailGrid ?m1,
             moveEnemy (grid (handleDeath ?s1)) ?m2]\<rparr>))"
    using tl se mp sp by (simp add: update_def Let_def idleInput_def)
  then show ?thesis
    using handleDeath_counts [of ?s1] by simp
qed

theorem at_most_one_death_per_tick_witness:
  "wfGrid (grid huntedState)
   \<and> getCell (grid huntedState) (fst spawnCell) (snd spawnCell) = CLAIMED
   \<and> (\<exists>s'. update idleInput huntedState = Some s'
         \<and> deaths s' = deaths huntedState + 1 \<and> lives s' = lives huntedState - 1
         \<and> respawned s')"
proof -
  have wf: "wfGrid (grid huntedState)" and sc: "getCell (grid huntedState) (fst spawnCell) (snd spawnCell) = CLAIMED"
    using cuttingState_facts by (simp_all add: huntedState_def)
  from hunted_tick obtain s' where up: "update idleInput huntedState = Some s'"
    and d: "deaths s' = deaths huntedState + 1" "lives s' = lives huntedState - 1"
    by blast
  from at_most_one_death_per_tick [OF wf sc up] d have "respawned s'" by simp
  with wf sc up d show ?thesis by blast
qed

theorem owned_never_decreases_witness:
  "wfGrid (grid huntedState)
   \<and> (\<exists>s'. update idleInput huntedState = Some s'
         \<and> owned (grid huntedState) \<le> owned (grid s'))
   \<and> owned (grid huntedState) \<le> owned (grid (handleDeath huntedState))"
proof -
  have wf: "wfGrid (grid huntedState)"
    using cuttingState_facts by (simp add: huntedState_def)
  from hunted_tick obtain s' where up: "update idleInput huntedState = Some s'"
    by blast
  from owned_never_decreases [OF wf, of idleInput 0 "{}" 0] up
  have "owned (grid huntedState) \<le> owned (grid s')"
    and "owned (grid huntedState) \<le> owned (grid (handleDeath huntedState))"
    by blast+
  with wf up show ?thesis by blast
qed


lemma owned_border_only:
  assumes "\<And>x y. inGrid x y \<Longrightarrow> \<not> isBorder x y \<Longrightarrow> getCell g x y \<noteq> CLAIMED"
  shows "owned g \<le> 220"
proof -
  let ?inner = "{1..62} \<times> {1..46} :: Point set"
  have sub: "?inner \<subseteq> cells"
    by (auto simp: cells_def inGrid_def GRID_WIDTH_def GRID_HEIGHT_def)
  have "{c \<in> cells. getCell g (fst c) (snd c) = CLAIMED} \<subseteq> cells - ?inner"
    using assms by (auto simp: cells_def isBorder_def inGrid_def GRID_WIDTH_def GRID_HEIGHT_def)
  then have "card {c \<in> cells. getCell g (fst c) (snd c) = CLAIMED} \<le> card (cells - ?inner)"
    using finite_cells by (intro card_mono) auto
  also have "card (cells - ?inner) = card cells - card ?inner"
    using sub finite_cells by (intro card_Diff_subset) (auto intro: finite_subset)
  also have "\<dots> = 220"
    by (simp add: card_cells card_cartesian_product)
  finally show ?thesis by (simp add: owned_card)
qed

lemma winCheck_low: "owned (grid s) \<le> 220 \<Longrightarrow> winCheck s = s"
proof -
  assume le: "owned (grid s) \<le> 220"
  define x where "x = real_of_int (owned (grid s)) / real_of_int (GRID_WIDTH * GRID_HEIGHT)"
  have "0 \<le> owned (grid s)" by (simp add: owned_card)
  then have x: "0 \<le> x" "x \<le> 220 / 3072"
    using le by (simp_all add: x_def GRID_WIDTH_def GRID_HEIGHT_def)
  have "rnd64 x \<le> x * (1 + 1 / 2 ^ 53)" by (rule rnd64_bounds(2) [OF x(1)])
  also have "\<dots> \<le> 220 / 3072 * (1 + 1 / 2 ^ 53)"
    by (rule mult_right_mono [OF x(2)]) simp
  also have "\<dots> < WIN_THRESHOLD" by (simp add: WIN_THRESHOLD_val)
  finally have "div64 (real_of_int (owned (grid s))) (real_of_int (GRID_WIDTH * GRID_HEIGHT)) < WIN_THRESHOLD"
    by (simp add: div64_def x_def)
  then show ?thesis by (simp add: winCheck_def Let_def)
qed

lemma checkCollision_free:
  "inGrid \<lfloor>a\<rfloor> \<lfloor>b\<rfloor> \<Longrightarrow> getCell g \<lfloor>a\<rfloor> \<lfloor>b\<rfloor> \<noteq> CLAIMED \<Longrightarrow> \<not> checkCollision g a b"
  by (simp add: checkCollision_def Let_def inGrid_def)

lemma moveEnemy_free:
  assumes "\<not> checkCollision g (add64 (add64 (ex e) (vx e)) (vx e)) (add64 (ey e) (vy e))"
    and "\<not> checkCollision g (add64 (ex e) (vx e)) (add64 (add64 (ey e) (vy e)) (vy e))"
  shows "moveEnemy g e = e\<lparr>ex := add64 (ex e) (vx e), ey := add64 (ey e) (vy e)\<rparr>"
  using assms by (simp add: moveEnemy_def Let_def)

lemma stepEnemies_quiet:
  assumes "\<forall>e \<in> set es. collide now (moveEnemy (grid s) e) s = Some s"
  shows "stepEnemies now es s = Some (map (moveEnemy (grid s)) es, s)"
  using assms by (induction es) simp_all

lemma update_quiet:
  assumes "\<not> sub64 (timeLeft s) (inDt inp) \<le> 0" and "\<not> inNow inp < frozen s"
    and "inRandom inp 0 > rnd64 (5 / 1000)"
    and "movePlayer (inNow inp) (inKeys inp) (s\<lparr>timeLeft := sub64 (timeLeft s) (inDt inp)\<rparr>) = Some s3"
    and "\<forall>e \<in> set (enemies s3). collide (inNow inp) (moveEnemy (grid s3) e) s3 = Some s3"
    and "owned (grid s3) \<le> 220"
  shows "update inp s = Some (s3\<lparr>enemies := map (moveEnemy (grid s3)) (enemies s3)\<rparr>)"
proof -
  have sp: "spawnPowerUp (inNow inp) (inRandom inp) (s\<lparr>timeLeft := sub64 (timeLeft s) (inDt inp)\<rparr>)
              = s\<lparr>timeLeft := sub64 (timeLeft s) (inDt inp)\<rparr>"
    using assms(3) by (simp add: spawnPowerUp_def)
  have wc: "winCheck (s3\<lparr>enemies := map (moveEnemy (grid s3)) (enemies s3)\<rparr>)
              = s3\<lparr>enemies := map (moveEnemy (grid s3)) (enemies s3)\<rparr>"
    by (rule winCheck_low) (simp add: assms(6))
  show ?thesis
    using assms(1,2) stepEnemies_quiet [OF assms(5)]
    by (simp add: update_def Let_def sp assms(4) wc)
qed






lemma speed_is_double:
  shows "rnd64 PLAYER_SPEED = PLAYER_SPEED" and "rnd64 (- PLAYER_SPEED) = - PLAYER_SPEED"
proof -
  show "rnd64 PLAYER_SPEED = PLAYER_SPEED"
    unfolding PLAYER_SPEED_val
    by (rule rnd64_eval [of "- 2" _ 5404319552844595]) (simp_all add: pow2_def)
  show "rnd64 (- PLAYER_SPEED) = - PLAYER_SPEED"
    unfolding PLAYER_SPEED_val
    by (rule rnd64_eval [of "- 2" _ "- 5404319552844595"]) (simp_all add: pow2_def)
qed

lemma keyDir_cases:
  "keyDir keys = (0, - 1) \<or> keyDir keys = (0, 1) \<or> keyDir keys = (- 1, 0)
   \<or> keyDir keys = (1, 0) \<or> keyDir keys = (0, 0)"
  by (simp add: keyDir_def)

lemma step_differs:
  assumes "1 / 4 \<le> \<bar>d\<bar>" "0 \<le> rnd64 (y + d)" "rnd64 (y + d) \<le> 64"
  shows "rnd64 (y + d) \<noteq> y"
proof
  assume eq: "rnd64 (y + d) = y"
  define z where "z = y + d"
  have "\<bar>rnd64 z - z\<bar> \<le> \<bar>z\<bar> / 2 ^ 53" by (rule rnd64_rel)
  then have e: "\<bar>rnd64 z - z\<bar> \<le> \<bar>z\<bar> / 9007199254740992" by simp
  have "\<bar>z\<bar> \<le> \<bar>rnd64 z\<bar> + \<bar>rnd64 z - z\<bar>" by linarith
  with e assms(2,3) have "\<bar>z\<bar> \<le> 65" by (simp add: z_def)
  with e have "\<bar>rnd64 z - z\<bar> < 1 / 4" by linarith
  moreover have "\<bar>rnd64 z - z\<bar> = \<bar>d\<bar>" using eq by (simp add: z_def)
  ultimately show False using assms(1) by linarith
qed

text \<open>
  The movement step of a tick whose candidate position is within the checked bounds and on
  a cell that is not Claimed.
\<close>

lemma movePlayer_step:
  assumes "keyDir keys = (dx, dy)" and "dx \<noteq> 0 \<or> dy \<noteq> 0"
    and "nextX = add64 (plx (player s)) (mul64 (real_of_int dx) PLAYER_SPEED)"
    and "nextY = add64 (ply (player s)) (mul64 (real_of_int dy) PLAYER_SPEED)"
    and "0 \<le> nextX" and "nextX \<le> real_of_int (GRID_WIDTH - 1)"
    and "0 \<le> nextY" and "nextY \<le> real_of_int (GRID_HEIGHT - 1)"
    and "getCell (grid s) (jsRound nextX) (jsRound nextY) \<noteq> CLAIMED"
  shows "movePlayer now keys s =
      (if isCuttingMode s
          \<or> cellOpt (grid s) (jsRound (plx (player s))) (jsRound (ply (player s))) = Some TRAIL
       then Some (s\<lparr>player := (player s)\<lparr>dir := (dx, dy), plx := nextX, ply := nextY\<rparr>,
                    grid := setCell (grid s) (jsRound nextX) (jsRound nextY) TRAIL,
                    events := events s @ [PlayDraw]\<rparr>)
       else Some (s\<lparr>player := (player s)\<lparr>dir := (dx, dy)\<rparr>\<rparr>))"
    and "nextX \<noteq> plx (player s) \<or> nextY \<noteq> ply (player s)"
proof -
  show "movePlayer now keys s =
      (if isCuttingMode s
          \<or> cellOpt (grid s) (jsRound (plx (player s))) (jsRound (ply (player s))) = Some TRAIL
       then Some (s\<lparr>player := (player s)\<lparr>dir := (dx, dy), plx := nextX, ply := nextY\<rparr>,
                    grid := setCell (grid s) (jsRound nextX) (jsRound nextY) TRAIL,
                    events := events s @ [PlayDraw]\<rparr>)
       else Some (s\<lparr>player := (player s)\<lparr>dir := (dx, dy)\<rparr>\<rparr>))"
    using assms(2,5-9) unfolding assms(3,4)
    by (simp add: movePlayer_def assms(1) Let_def)
  have q: "(1 :: real) / 4 \<le> \<bar>PLAYER_SPEED\<bar>" "(1 :: real) / 4 \<le> \<bar>- PLAYER_SPEED\<bar>"
    by (simp_all add: PLAYER_SPEED_val)
  have w: "real_of_int (GRID_WIDTH - 1) \<le> 64" "real_of_int (GRID_HEIGHT - 1) \<le> 64"
    by (simp_all add: GRID_WIDTH_def GRID_HEIGHT_def)
  from keyDir_cases [of keys] assms(1,2)
  consider "dx = 0" "dy = - 1" | "dx = 0" "dy = 1" | "dx = - 1" "dy = 0" | "dx = 1" "dy = 0"
    by auto
  then show "nextX \<noteq> plx (player s) \<or> nextY \<noteq> ply (player s)"
  proof cases
    case 1
    then have "nextY = rnd64 (ply (player s) + - PLAYER_SPEED)"
      by (simp add: assms(4) add64_def mul64_def speed_is_double)
    with step_differs [OF q(2), of "ply (player s)"] assms(7,8) w show ?thesis by simp
  next
    case 2
    then have "nextY = rnd64 (ply (player s) + PLAYER_SPEED)"
      by (simp add: assms(4) add64_def mul64_def speed_is_double)
    with step_differs [OF q(1), of "ply (player s)"] assms(7,8) w show ?thesis by simp
  next
    case 3
    then have "nextX = rnd64 (plx (player s) + - PLAYER_SPEED)"
      by (simp add: assms(3) add64_def mul64_def speed_is_double)
    with step_differs [OF q(2), of "plx (player s)"] assms(5,6) w show ?thesis by simp
  next
    case 4
    then have "nextX = rnd64 (plx (player s) + PLAYER_SPEED)"
      by (simp add: assms(3) add64_def mul64_def speed_is_double)
    with step_differs [OF q(1), of "plx (player s)"] assms(5,6) w show ?thesis by simp
  qed
qed

lemma spawnPowerUp_frame [simp]:
  "player (spawnPowerUp now r s) = player s"
  "isCuttingMode (spawnPowerUp now r s) = isCuttingMode s"
  by (simp_all add: spawnPowerUp_def Let_def)

lemma winCheck_frame [simp]:
  "player (winCheck s) = player s" "isCuttingMode (winCheck s) = isCuttingMode s"
  by (simp_all add: winCheck_def Let_def onGameOver_def)

text \<open>
  What a tick does to the player who steps towards a cell that is not Claimed: the step of
  \<open>movePlayer_step\<close>, and then either no enemy kills the player, or the death resets
  position, cutting-mode and trail.
\<close>

lemma tick_step:
  assumes wf: "wfGrid (grid s)"
    and sc: "getCell (grid s) (fst spawnCell) (snd spawnCell) = CLAIMED"
    and up: "update inp s = Some s'"
    and alive: "\<not> sub64 (timeLeft s) (inDt inp) \<le> 0"
    and kd: "keyDir (inKeys inp) = (dx, dy)" "dx \<noteq> 0 \<or> dy \<noteq> 0"
    and nx: "nextX = add64 (plx (player s)) (mul64 (real_of_int dx) PLAYER_SPEED)"
    and ny: "nextY = add64 (ply (player s)) (mul64 (real_of_int dy) PLAYER_SPEED)"
    and bd: "0 \<le> nextX" "nextX \<le> real_of_int (GRID_WIDTH - 1)"
            "0 \<le> nextY" "nextY \<le> real_of_int (GRID_HEIGHT - 1)"
    and nc: "getCell (grid s) (jsRound nextX) (jsRound nextY) \<noteq> CLAIMED"
    and dr: "drawing \<longleftrightarrow> isCuttingMode s
               \<or> cellOpt (grid s) (jsRound (plx (player s))) (jsRound (ply (player s))) = Some TRAIL"
  shows "(deaths s' = deaths s
          \<and> (if drawing
              then plx (player s') = nextX \<and> ply (player s') = nextY
                   \<and> grid s' = setCell (grid s) (jsRound nextX) (jsRound nextY) TRAIL
              else plx (player s') = plx (player s) \<and> ply (player s') = ply (player s)
                   \<and> grid s' = grid s))
         \<or> (deaths s' = deaths s + 1 \<and> player s' = spawnPlayer \<and> \<not> isCuttingMode s'
             \<and> (\<forall>x y. inGrid x y \<longrightarrow> getCell (grid s') x y \<noteq> TRAIL))"
  using up
proof (cases rule: update_cases)
  case timeout
  with alive show ?thesis by simp
next
  let ?s2 = "spawnPowerUp (inNow inp) (inRandom inp) (s\<lparr>timeLeft := sub64 (timeLeft s) (inDt inp)\<rparr>)"
  let ?adv = "?s2\<lparr>player := (player ?s2)\<lparr>dir := (dx, dy), plx := nextX, ply := nextY\<rparr>,
                  grid := setCell (grid ?s2) (jsRound nextX) (jsRound nextY) TRAIL,
                  events := events ?s2 @ [PlayDraw]\<rparr>"
  let ?stay = "?s2\<lparr>player := (player ?s2)\<lparr>dir := (dx, dy)\<rparr>\<rparr>"
  have mp: "movePlayer (inNow inp) (inKeys inp) ?s2 = (if drawing then Some ?adv else Some ?stay)"
    using movePlayer_step(1) [of "inKeys inp" dx dy nextX ?s2 nextY "inNow inp"] kd nx ny bd nc dr
    by simp
  have quiet: "(if drawing
              then plx (player s3) = nextX \<and> ply (player s3) = nextY
                   \<and> grid s3 = setCell (grid s) (jsRound nextX) (jsRound nextY) TRAIL
              else plx (player s3) = plx (player s) \<and> ply (player s3) = ply (player s)
                   \<and> grid s3 = grid s)"
    if "movePlayer (inNow inp) (inKeys inp) ?s2 = Some s3" for s3
    using that unfolding mp by (auto split: if_splits)
  {
    case (frozen s3)
    from movePlayer_counts [OF frozen(3)] have "deaths s' = deaths s"
      using frozen(4) by simp
    with quiet [OF frozen(3)] frozen(4) show ?thesis by simp
  next
    case (moving s3 es s4)
    have c3: "deaths s3 = deaths s"
      using movePlayer_counts [OF moving(3)] by simp
    have k: "keepsClaimed (grid s) (grid s3)"
      using movePlayer_keeps [OF _ moving(3)] wf by simp
    then have wf3: "wfGrid (grid s3)"
      and sc3: "getCell (grid s3) (fst spawnCell) (snd spawnCell) = CLAIMED"
      using sc inGrid_spawnCell by (auto simp: keepsClaimed_def)
    from stepEnemies_one_death [OF wf3 sc3 moving(4)] show ?thesis
    proof
      assume "s4 = s3"
      with c3 quiet [OF moving(3)] moving(5) show ?thesis by simp
    next
      assume s4: "s4 = handleDeath s3"
      have r: "respawned (handleDeath s3)" by (rule handleDeath_respawned [OF wf3 sc3])
      have "\<not> isCuttingMode (handleDeath s3)"
        by (simp add: handleDeath_def Let_def onGameOver_def)
      with r c3 handleDeath_counts(1) [of s3] show ?thesis
        unfolding moving(5) s4 by (simp add: respawned_def)
    qed
  }
qed

lemma cutting_sums:
  shows "mul64 0 (5404319552844595 / 18014398509481984) = 0"
    and "mul64 1 (5404319552844595 / 18014398509481984) = 5404319552844595 / 18014398509481984"
    and "add64 5 0 = 5"
    and "add64 (27 / 8) (5404319552844595 / 18014398509481984) = 4137682157646643 / 1125899906842624"
    and "sub64 5 (4524710250623795 / 140737488355328) = - (3821022808847155 / 140737488355328)"
    and "sub64 (4137682157646643 / 1125899906842624) (3398810343781171 / 140737488355328) = - (5763200148150681 / 281474976710656)"
proof -
  show "mul64 0 (5404319552844595 / 18014398509481984) = 0"
    by (simp add: mul64_def)
  show "mul64 1 (5404319552844595 / 18014398509481984) = 5404319552844595 / 18014398509481984"
    unfolding mul64_def by (rule rnd64_eval [of "- 2" _ 5404319552844595]) (simp_all add: pow2_def)
  show "add64 5 0 = 5"
    unfolding add64_def by (rule rnd64_eval [of 2 _ 5629499534213120]) (simp_all add: pow2_def)
  show "add64 (27 / 8) (5404319552844595 / 18014398509481984) = 4137682157646643 / 1125899906842624"
    unfolding add64_def by (rule rnd64_eval [of 1 _ 8275364315293286]) (simp_all add: pow2_def)
  show "sub64 5 (4524710250623795 / 140737488355328) = - (3821022808847155 / 140737488355328)"
    unfolding sub64_def by (rule rnd64_eval [of 4 _ "- 7642045617694310"]) (simp_all add: pow2_def)
  show "sub64 (4137682157646643 / 1125899906842624) (3398810343781171 / 140737488355328) = - (5763200148150681 / 281474976710656)"
    unfolding sub64_def by (rule rnd64_eval [of 4 _ "- 5763200148150681"]) (simp_all add: pow2_def)
qed

lemma cutting_step:
  defines "s1 \<equiv> \<lambda>s. s\<lparr>timeLeft := sub64 (timeLeft s) (inDt downInput)\<rparr>"
  defines "adv \<equiv> \<lambda>s. (s1 s)\<lparr>player := \<lparr>plx = 5, ply = 4137682157646643 / 1125899906842624, dir = (0, 1)\<rparr>,
                         grid := setCell trailGrid 5 4 TRAIL,
                         events := events s @ [PlayDraw]\<rparr>"
  assumes "grid s = trailGrid" "player s = \<lparr>plx = 5, ply = 27 / 8, dir = (0, 1)\<rparr>" "isCuttingMode s"
  shows "movePlayer (inNow downInput) (inKeys downInput) (s1 s) = Some (adv s)"
    and "wfGrid (grid (adv s))" and "playerInField (adv s)"
    and "inGrid x y \<Longrightarrow> getCell (grid (adv s)) x y = (if x = 5 \<and> y = 4 then TRAIL else getCell trailGrid x y)"
    and "collide (inNow downInput) (moveEnemy (grid (adv s)) (bossAt 32 24)) (adv s) = Some (adv s)"
proof -
  have kd: "keyDir (inKeys downInput) = (0, 1)" by (simp add: downInput_def keyDir_def)
  have ing: "inGrid 5 4" "inGrid 32 24" by (simp_all add: inGrid_def GRID_WIDTH_def GRID_HEIGHT_def)
  have c: "getCell trailGrid 5 4 = VOID" "getCell trailGrid 32 24 = VOID"
    using ing by (simp_all add: trailGrid_cells isBorder_def GRID_WIDTH_def GRID_HEIGHT_def)
  have vc: "VOID \<noteq> CLAIMED" "VOID \<noteq> TRAIL" by (simp_all add: VOID_def CLAIMED_def TRAIL_def)
  have nx: "add64 (plx (player (s1 s))) (mul64 (real_of_int 0) PLAYER_SPEED) = 5"
    and ny: "add64 (ply (player (s1 s))) (mul64 (real_of_int 1) PLAYER_SPEED) = 4137682157646643 / 1125899906842624"
    by (simp_all add: s1_def assms(4) PLAYER_SPEED_val cutting_sums)
  have js: "jsRound 5 = 5" "jsRound (4137682157646643 / 1125899906842624) = 4"
    by (simp_all add: jsRound_def)
  from movePlayer_step(1) [OF kd _ nx [symmetric] ny [symmetric], of "inNow downInput"]
  show mp: "movePlayer (inNow downInput) (inKeys downInput) (s1 s) = Some (adv s)"
    using c vc by (simp add: js s1_def adv_def assms(3,4,5) GRID_WIDTH_def GRID_HEIGHT_def)
  have wft: "wfGrid trailGrid" by (rule cuttingState_facts(2))
  show wf: "wfGrid (grid (adv s))" using wft by (simp add: adv_def)
  show pf: "playerInField (adv s)"
    by (simp add: adv_def playerInField_def GRID_WIDTH_def GRID_HEIGHT_def)
  show g: "getCell (grid (adv s)) x y = (if x = 5 \<and> y = 4 then TRAIL else getCell trailGrid x y)"
    if "inGrid x y" for x y
    using getCell_setCell [OF wft ing(1) that] by (simp add: adv_def)
  show "collide (inNow downInput) (moveEnemy (grid (adv s)) (bossAt 32 24)) (adv s) = Some (adv s)"
  proof (rule collide_far [OF wf pf])
    show "\<not> (inGrid \<lfloor>ex (moveEnemy (grid (adv s)) (bossAt 32 24))\<rfloor> \<lfloor>ey (moveEnemy (grid (adv s)) (bossAt 32 24))\<rfloor>
              \<and> getCell (grid (adv s)) \<lfloor>ex (moveEnemy (grid (adv s)) (bossAt 32 24))\<rfloor>
                   \<lfloor>ey (moveEnemy (grid (adv s)) (bossAt 32 24))\<rfloor> = TRAIL)"
      using g [OF ing(2)] c(2) vc by (simp add: bossAt_def BOSS_SPEED_val hunted_sums)
  qed (simp_all add: adv_def bossAt_def BOSS_SPEED_val hunted_sums cutting_sums power2_eq_square)
qed

lemma cutting_down_tick:
  "\<exists>s'. update downInput cuttingState = Some s' \<and> deaths s' = deaths cuttingState"
proof -
  let ?s1 = "cuttingState\<lparr>timeLeft := sub64 (timeLeft cuttingState) (inDt downInput)\<rparr>"
  let ?adv = "?s1\<lparr>player := \<lparr>plx = 5, ply = 4137682157646643 / 1125899906842624, dir = (0, 1)\<rparr>,
                  grid := setCell trailGrid 5 4 TRAIL,
                  events := events cuttingState @ [PlayDraw]\<rparr>"
  note st = cutting_step [OF cuttingState_facts(1,3,4)]
  have en: "enemies ?adv = [bossAt 32 24]"
    by (simp add: cuttingState_def stateOf_def)
  have own: "owned (grid ?adv) \<le> 220"
  proof (rule owned_border_only)
    fix x y assume "inGrid x y" "\<not> isBorder x y"
    then show "getCell (grid ?adv) x y \<noteq> CLAIMED"
      using st(4) [of x y] by (simp add: trailGrid_cells CLAIMED_def TRAIL_def VOID_def)
  qed
  have "update downInput cuttingState
          = Some (?adv\<lparr>enemies := map (moveEnemy (grid ?adv)) (enemies ?adv)\<rparr>)"
  proof (rule update_quiet [OF _ _ _ st(1) _ own])
    show "\<forall>e \<in> set (enemies ?adv). collide (inNow downInput) (moveEnemy (grid ?adv) e) ?adv = Some ?adv"
      using st(5) by (simp add: en)
  qed (simp_all add: cuttingState_facts downInput_def noSpawn_def hunted_sums spawn_chance_val)
  then show ?thesis by (simp add: deaths_def)
qed

lemma hunted_down_tick:
  "\<exists>s'. update downInput huntedState = Some s' \<and> deaths s' = deaths huntedState + 1"
proof -
  let ?s1 = "huntedState\<lparr>timeLeft := sub64 (timeLeft huntedState) (inDt downInput)\<rparr>"
  let ?adv = "?s1\<lparr>player := \<lparr>plx = 5, ply = 4137682157646643 / 1125899906842624, dir = (0, 1)\<rparr>,
                  grid := setCell trailGrid 5 4 TRAIL,
                  events := events huntedState @ [PlayDraw]\<rparr>"
  let ?boss = "bossAt 32 24" and ?m1 = "minionAt (41 / 8) (15 / 8)" and ?m2 = "minionAt (41 / 8) (7 / 8)"
  have h: "grid huntedState = trailGrid" "player huntedState = \<lparr>plx = 5, ply = 27 / 8, dir = (0, 1)\<rparr>"
    "isCuttingMode huntedState"
    using cuttingState_facts by (simp_all add: huntedState_def)
  note st = cutting_step [OF h]
  have en: "enemies ?adv = [?boss, ?m1, ?m2]" by (simp add: huntedState_def)
  have sp: "spawnPowerUp (inNow downInput) (inRandom downInput) ?s1 = ?s1"
    by (simp add: spawnPowerUp_def downInput_def noSpawn_def spawn_chance_val)
  have ing: "inGrid 5 2" "inGrid 32 0" by (simp_all add: inGrid_def GRID_WIDTH_def GRID_HEIGHT_def)
  have sc: "getCell (grid ?adv) (fst spawnCell) (snd spawnCell) = CLAIMED"
    using st(4) [OF ing(2)] ing(2)
    by (simp add: spawnCell_eq trailGrid_cells isBorder_def GRID_WIDTH_def GRID_HEIGHT_def)
  have c1: "collide (inNow downInput) (moveEnemy (grid ?adv) ?m1) ?adv = Some (handleDeath ?adv)"
  proof (rule collide_hit [OF st(2,3)])
    have c: "\<lfloor>ex (moveEnemy (grid ?adv) ?m1)\<rfloor> = 5" "\<lfloor>ey (moveEnemy (grid ?adv) ?m1)\<rfloor> = 2"
      by (simp_all add: minionAt_def ENEMY_SPEED_val hunted_sums)
    show i: "inGrid \<lfloor>ex (moveEnemy (grid ?adv) ?m1)\<rfloor> \<lfloor>ey (moveEnemy (grid ?adv) ?m1)\<rfloor>"
      unfolding c by (rule ing(1))
    show "getCell (grid ?adv) \<lfloor>ex (moveEnemy (grid ?adv) ?m1)\<rfloor> \<lfloor>ey (moveEnemy (grid ?adv) ?m1)\<rfloor> = TRAIL"
      unfolding c using st(4) [OF ing(1)] ing(1)
      by (simp add: trailGrid_cells isBorder_def GRID_WIDTH_def GRID_HEIGHT_def)
  qed (use cuttingState_facts(10) in \<open>simp add: huntedState_def downInput_def\<close>)
  have rs: "respawned (handleDeath ?adv)"
    by (rule handleDeath_respawned [OF st(2) sc])
  have se: "stepEnemies (inNow downInput) (enemies ?adv) ?adv =
      Some ([moveEnemy (grid ?adv) ?boss, moveEnemy (grid ?adv) ?m1,
             moveEnemy (grid (handleDeath ?adv)) ?m2], handleDeath ?adv)"
    using st(5) c1 stepEnemies_respawned [OF rs, of "inNow downInput" "[?m2]"]
    by (simp add: en)
  have tl: "\<not> timeLeft ?s1 \<le> 0" "\<not> inNow downInput < frozen ?s1"
    using cuttingState_facts(8,9) by (simp_all add: huntedState_def downInput_def hunted_sums)
  have "update downInput huntedState =
      Some (winCheck ((handleDeath ?adv)\<lparr>enemies := [moveEnemy (grid ?adv) ?boss, moveEnemy (grid ?adv) ?m1,
             moveEnemy (grid (handleDeath ?adv)) ?m2]\<rparr>))"
    using tl se st(1) sp by (simp add: update_def Let_def)
  moreover have "deaths ?adv = deaths huntedState" by (simp add: deaths_def)
  ultimately show ?thesis
    using handleDeath_counts(1) [of ?adv] by simp
qed

text \<open>
  C7, as stated, fails: a tick does not end with the movement step. The cutting player of
  \<open>huntedState\<close> holds the down key; the candidate position is within bounds and its cell
  (5, 4) is Void. The step advances the player and marks the cell, but in the same tick a
  minion moves onto the trail: the tick ends with the player at the spawn position and the
  cell Void again.
\<close>

theorem tick_death_undoes_advance_counterexample:
  "keyDir (inKeys downInput) = (0, 1) \<and> isCuttingMode huntedState
   \<and> plx (player huntedState) = 5 \<and> ply (player huntedState) = 27 / 8
   \<and> add64 5 (mul64 0 PLAYER_SPEED) = 5
   \<and> 0 \<le> add64 (27 / 8) (mul64 1 PLAYER_SPEED) \<and> add64 (27 / 8) (mul64 1 PLAYER_SPEED) \<le> 47
   \<and> jsRound 5 = 5 \<and> jsRound (add64 (27 / 8) (mul64 1 PLAYER_SPEED)) = 4
   \<and> getCell (grid huntedState) 5 4 = VOID
   \<and> update downInput huntedState \<noteq> None
   \<and> plx (player (the (update downInput huntedState))) = 32
   \<and> ply (player (the (update downInput huntedState))) = 0
   \<and> getCell (grid (the (update downInput huntedState))) 5 4 \<noteq> TRAIL"
proof -
  have kd: "keyDir (inKeys downInput) = (0, 1)" by (simp add: downInput_def keyDir_def)
  have h: "grid huntedState = trailGrid" "player huntedState = \<lparr>plx = 5, ply = 27 / 8, dir = (0, 1)\<rparr>"
    "isCuttingMode huntedState" "wfGrid (grid huntedState)"
    "getCell (grid huntedState) (fst spawnCell) (snd spawnCell) = CLAIMED"
    "timeLeft huntedState = 90"
    using cuttingState_facts by (simp_all add: huntedState_def)
  have n: "add64 5 (mul64 0 PLAYER_SPEED) = 5"
    "add64 (27 / 8) (mul64 1 PLAYER_SPEED) = 4137682157646643 / 1125899906842624"
    by (simp_all add: PLAYER_SPEED_val cutting_sums)
  have js: "jsRound 5 = 5" "jsRound (4137682157646643 / 1125899906842624) = 4"
    by (simp_all add: jsRound_def)
  have ing: "inGrid 5 4" by (simp add: inGrid_def GRID_WIDTH_def GRID_HEIGHT_def)
  have c: "getCell trailGrid 5 4 = VOID"
    using ing by (simp add: trailGrid_cells isBorder_def GRID_WIDTH_def GRID_HEIGHT_def)
  from hunted_down_tick obtain s' where up: "update downInput huntedState = Some s'"
    and d: "deaths s' = deaths huntedState + 1" by blast
  have "player s' = spawnPlayer \<and> (\<forall>x y. inGrid x y \<longrightarrow> getCell (grid s') x y \<noteq> TRAIL)"
    using tick_step [OF h(4,5) up _ kd _ _ _ _ _ _ _ _ refl, of 5 "4137682157646643 / 1125899906842624"] d c
    by (simp add: h n js downInput_def hunted_sums GRID_WIDTH_def GRID_HEIGHT_def VOID_def CLAIMED_def)
  then show ?thesis
    using kd up ing c by (simp add: h n js spawnPlayer_def GRID_WIDTH_def)
qed

text \<open>
  C7, amended. Take a tick that reaches the movement step with a direction key held, on a
  grid of the level's shape whose spawn cell is Claimed, in which the candidate next
  position is within the bounds the step checks and its cell is not Claimed. Either no
  enemy kills the player in that tick: then the player has advanced to the candidate
  position and its cell is Trail exactly when cutting-mode was active or the cell the player
  stood on was Trail, in that case no other cell has changed, and otherwise position and
  grid are as they were. Or an enemy kills the player in that tick: then the player is at
  the spawn position, cutting-mode is off and no cell is Trail.
\<close>

theorem tick_moves_player_into_unclaimed_cell:
  assumes "wfGrid (grid s)"
    and "getCell (grid s) (fst spawnCell) (snd spawnCell) = CLAIMED"
    and "update inp s = Some s'"
    and "\<not> sub64 (timeLeft s) (inDt inp) \<le> 0"
    and "keyDir (inKeys inp) = (dx, dy)" and "dx \<noteq> 0 \<or> dy \<noteq> 0"
    and "nextX = add64 (plx (player s)) (mul64 (real_of_int dx) PLAYER_SPEED)"
    and "nextY = add64 (ply (player s)) (mul64 (real_of_int dy) PLAYER_SPEED)"
    and "0 \<le> nextX" and "nextX \<le> real_of_int (GRID_WIDTH - 1)"
    and "0 \<le> nextY" and "nextY \<le> real_of_int (GRID_HEIGHT - 1)"
    and "getCell (grid s) (jsRound nextX) (jsRound nextY) \<noteq> CLAIMED"
  shows "(deaths s' = deaths s
          \<and> ((plx (player s') = nextX \<and> ply (player s') = nextY
               \<and> getCell (grid s') (jsRound nextX) (jsRound nextY) = TRAIL)
              \<longleftrightarrow> (isCuttingMode s
                   \<or> cellOpt (grid s) (jsRound (plx (player s))) (jsRound (ply (player s))) = Some TRAIL))
          \<and> (isCuttingMode s
                \<or> cellOpt (grid s) (jsRound (plx (player s))) (jsRound (ply (player s))) = Some TRAIL
              \<longrightarrow> grid s' = setCell (grid s) (jsRound nextX) (jsRound nextY) TRAIL)
          \<and> (\<not> (isCuttingMode s
                   \<or> cellOpt (grid s) (jsRound (plx (player s))) (jsRound (ply (player s))) = Some TRAIL)
              \<longrightarrow> plx (player s') = plx (player s) \<and> ply (player s') = ply (player s)
                  \<and> grid s' = grid s))
         \<or> (deaths s' = deaths s + 1 \<and> player s' = spawnPlayer \<and> \<not> isCuttingMode s'
             \<and> (\<forall>x y. inGrid x y \<longrightarrow> getCell (grid s') x y \<noteq> TRAIL))"
proof -
  have ing: "inGrid (jsRound nextX) (jsRound nextY)"
    using assms(9-12) by (rule jsRound_inGrid)
  have tr: "getCell (setCell (grid s) (jsRound nextX) (jsRound nextY) TRAIL) (jsRound nextX) (jsRound nextY) = TRAIL"
    using getCell_setCell [OF assms(1) ing ing] by simp
  have moved: "nextX \<noteq> plx (player s) \<or> nextY \<noteq> ply (player s)"
    by (rule movePlayer_step(2) [OF assms(5-13)])
  from tick_step [OF assms refl] show ?thesis
    using tr moved by (auto split: if_splits)
qed

theorem tick_moves_player_into_unclaimed_cell_witness:
  "wfGrid (grid cuttingState)
   \<and> getCell (grid cuttingState) (fst spawnCell) (snd spawnCell) = CLAIMED
   \<and> \<not> sub64 (timeLeft cuttingState) (inDt downInput) \<le> 0
   \<and> keyDir (inKeys downInput) = (0, 1)
   \<and> plx (player cuttingState) = 5 \<and> ply (player cuttingState) = 27 / 8
   \<and> add64 5 (mul64 0 PLAYER_SPEED) = 5
   \<and> 0 \<le> add64 (27 / 8) (mul64 1 PLAYER_SPEED) \<and> add64 (27 / 8) (mul64 1 PLAYER_SPEED) \<le> 47
   \<and> jsRound 5 = 5 \<and> jsRound (add64 (27 / 8) (mul64 1 PLAYER_SPEED)) = 4
   \<and> getCell (grid cuttingState) 5 4 = VOID \<and> isCuttingMode cuttingState
   \<and> update downInput cuttingState \<noteq> None
   \<and> deaths (the (update downInput cuttingState)) = deaths cuttingState
   \<and> plx (player (the (update downInput cuttingState))) = 5
   \<and> ply (player (the (update downInput cuttingState))) = add64 (27 / 8) (mul64 1 PLAYER_SPEED)
   \<and> getCell (grid (the (update downInput cuttingState))) 5 4 = TRAIL
   \<and> update downInput huntedState \<noteq> None
   \<and> deaths (the (update downInput huntedState)) = deaths huntedState + 1
   \<and> player (the (update downInput huntedState)) = spawnPlayer
   \<and> \<not> isCuttingMode (the (update downInput huntedState))
   \<and> getCell (grid (the (update downInput huntedState))) 5 3 \<noteq> TRAIL"
proof -
  have kd: "keyDir (inKeys downInput) = (0, 1)" by (simp add: downInput_def keyDir_def)
  have n: "add64 5 (mul64 0 PLAYER_SPEED) = 5"
    "add64 (27 / 8) (mul64 1 PLAYER_SPEED) = 4137682157646643 / 1125899906842624"
    by (simp_all add: PLAYER_SPEED_val cutting_sums)
  have js: "jsRound 5 = 5" "jsRound (4137682157646643 / 1125899906842624) = 4"
    by (simp_all add: jsRound_def)
  have ing: "inGrid 5 4" "inGrid 5 3" by (simp_all add: inGrid_def GRID_WIDTH_def GRID_HEIGHT_def)
  have c: "getCell trailGrid 5 4 = VOID"
    using ing by (simp add: trailGrid_cells isBorder_def GRID_WIDTH_def GRID_HEIGHT_def)
  have vc: "VOID \<noteq> CLAIMED" by (simp add: VOID_def CLAIMED_def)
  have tl: "\<not> sub64 90 (inDt downInput) \<le> 0" by (simp add: downInput_def hunted_sums)
  note f = cuttingState_facts
  have h: "grid huntedState = trailGrid" "player huntedState = \<lparr>plx = 5, ply = 27 / 8, dir = (0, 1)\<rparr>"
    "isCuttingMode huntedState" "wfGrid (grid huntedState)"
    "getCell (grid huntedState) (fst spawnCell) (snd spawnCell) = CLAIMED"
    "timeLeft huntedState = 90"
    using cuttingState_facts by (simp_all add: huntedState_def)
  have tr: "getCell (setCell trailGrid 5 4 TRAIL) 5 4 = TRAIL"
    using getCell_setCell [OF f(2) ing(1) ing(1)] by simp
  from cutting_down_tick obtain s1 where up1: "update downInput cuttingState = Some s1"
    and d1: "deaths s1 = deaths cuttingState" by blast
  from tick_moves_player_into_unclaimed_cell [of cuttingState downInput s1 0 1 5 "4137682157646643 / 1125899906842624"]
  have a: "plx (player s1) = 5 \<and> ply (player s1) = 4137682157646643 / 1125899906842624 \<and> getCell (grid s1) 5 4 = TRAIL"
    using up1 d1 kd tl c vc tr by (simp add: f n js GRID_WIDTH_def GRID_HEIGHT_def)
  from hunted_down_tick obtain s2 where up2: "update downInput huntedState = Some s2"
    and d2: "deaths s2 = deaths huntedState + 1" by blast
  from tick_moves_player_into_unclaimed_cell [of huntedState downInput s2 0 1 5 "4137682157646643 / 1125899906842624"]
  have b: "player s2 = spawnPlayer \<and> \<not> isCuttingMode s2 \<and> getCell (grid s2) 5 3 \<noteq> TRAIL"
    using up2 d2 kd tl c vc ing(2) f(2,7) by (simp add: h n js GRID_WIDTH_def GRID_HEIGHT_def)
  show ?thesis
    using a b up1 up2 d1 d2 kd tl c by (simp add: f n js)
qed

subsection \<open>Enemies and Claimed cells\<close>













lemma winCheck_enemies [simp]: "enemies (winCheck s) = enemies s"
  by (simp add: winCheck_def Let_def onGameOver_def)

















lemma spawnPowerUp_enemies [simp]: "enemies (spawnPowerUp now r s) = enemies s"
  by (simp add: spawnPowerUp_def Let_def)











subsection \<open>Death\<close>

text \<open>
  C8. A death event, whatever called \<open>handleDeath\<close>, turns every Trail cell into Void and
  leaves every other cell (Claimed or Void) as it was, puts the player back on the spawn
  position that \<open>initLevel\<close> uses, switches cutting-mode off and takes one life.
\<close>

theorem handleDeath_resets:
  assumes "wfGrid (grid s)"
  shows "wfGrid (grid (handleDeath s))
    \<and> (\<forall>x y. inGrid x y \<longrightarrow>
           getCell (grid (handleDeath s)) x y =
             (if getCell (grid s) x y = TRAIL then VOID else getCell (grid s) x y))
    \<and> player (handleDeath s) = player (initLevel rnd s)
    \<and> \<not> isCuttingMode (handleDeath s)
    \<and> lives (handleDeath s) = lives s - 1"
  using clearTrail_cells [OF assms]
  by (simp add: handleDeath_def Let_def onGameOver_def initLevel_def)

theorem handleDeath_resets_witness:
  "wfGrid (grid cuttingState) \<and> inGrid 5 2 \<and> inGrid 7 7 \<and> inGrid 0 9
   \<and> getCell (grid cuttingState) 5 2 = TRAIL \<and> getCell (grid (handleDeath cuttingState)) 5 2 = VOID
   \<and> getCell (grid cuttingState) 7 7 = VOID \<and> getCell (grid (handleDeath cuttingState)) 7 7 = VOID
   \<and> getCell (grid cuttingState) 0 9 = CLAIMED \<and> getCell (grid (handleDeath cuttingState)) 0 9 = CLAIMED
   \<and> isCuttingMode cuttingState \<and> \<not> isCuttingMode (handleDeath cuttingState)
   \<and> plx (player (handleDeath cuttingState)) = 32 \<and> ply (player (handleDeath cuttingState)) = 0
   \<and> lives cuttingState = 2 \<and> lives (handleDeath cuttingState) = 1"
proof -
  have wf: "wfGrid (grid cuttingState)"
    by (simp add: cuttingState_def stateOf_def trailGrid_def)
  have in1: "inGrid 5 2" and in2: "inGrid 7 7" and in3: "inGrid 0 9"
    by (simp_all add: inGrid_def GRID_WIDTH_def GRID_HEIGHT_def)
  have g: "grid cuttingState = trailGrid"
    by (simp add: cuttingState_def stateOf_def)
  have c1: "getCell trailGrid 5 2 = TRAIL" and c2: "getCell trailGrid 7 7 = VOID"
    and c3: "getCell trailGrid 0 9 = CLAIMED"
    using in1 in2 in3
    by (simp_all add: trailGrid_def isBorder_def GRID_WIDTH_def GRID_HEIGHT_def)
  have neq: "VOID \<noteq> TRAIL" "CLAIMED \<noteq> TRAIL"
    by (simp_all add: VOID_def TRAIL_def CLAIMED_def)
  have pl: "player (initLevel rnd cuttingState) = spawnPlayer" for rnd
    by (simp add: initLevel_def)
  have misc: "isCuttingMode cuttingState" "lives cuttingState = 2"
    by (simp_all add: cuttingState_def stateOf_def)
  show ?thesis
    using handleDeath_resets [OF wf] in1 in2 in3 c1 c2 c3 neq wf misc
    by (simp add: g pl spawnPlayer_def GRID_WIDTH_def)
qed

subsection \<open>Lives across levels\<close>

text \<open>
  C4, as stated, fails: entering the next level after a victory with five lives leaves three.
\<close>

theorem nextLevel_keeps_lives_counterexample:
  "gameState wonState = VICTORY \<and> lives wonState = 5
   \<and> gameState (assetsReady noRandom (handleNextLevel wonState)) = PLAYING
   \<and> level (assetsReady noRandom (handleNextLevel wonState)) = 1
   \<and> lives (assetsReady noRandom (handleNextLevel wonState)) \<noteq> lives wonState"
  by (simp add: wonState_def stateOf_def assetsReady_def handleNextLevel_def
      loadLevelAssets_def playingEffect_def initLevel_def)

text \<open>
  C4, amended. Every entry into \<open>PLAYING\<close>, the first one after \<open>handleStart\<close> and each later
  one after \<open>handleNextLevel\<close>, sets lives to 3; the next level keeps the score and moves the
  level index on by one.
\<close>

theorem every_level_entry_sets_three_lives:
  "lives (assetsReady rnd (handleStart s)) = 3
   \<and> lives (assetsReady rnd (handleNextLevel s)) = 3
   \<and> lives (playingEffect rnd (s\<lparr>gameState := PLAYING\<rparr>)) = 3
   \<and> score (assetsReady rnd (handleNextLevel s)) = score s
   \<and> level (assetsReady rnd (handleNextLevel s)) = level s + 1"
  by (simp add: assetsReady_def handleStart_def handleNextLevel_def
      loadLevelAssets_def playingEffect_def initLevel_def)

end
